theory Spec2Isabelle
  imports Complex_Main "HOL-Library.Sublist"
begin

section \<open>The relay watcher of scripts/local-relay/watcher-github.js\<close>

text \<open>
  The watcher observes two sources of marker files: the local directory \<open>.handoff\<close>
  (file watching, a debounce timer per signal, and a periodic scan) and the copy of the
  same files in a GitHub repository (periodic polling). This theory embeds the functions
  of the script that decide when a notification is sent, and proves the properties of
  them.

  Conventions of the embedding.
  \<^item> A JavaScript string is a \<open>string\<close>; a \<open>char\<close> stands for a code unit in the range
    U+0000 .. U+00FF.
  \<^item> \<open>stat.mtimeMs\<close> is a JavaScript number; it is a \<open>real\<close> here (a modification time
    is never NaN, and \<open>\<le>\<close> on finite doubles is the order of the reals).
  \<^item> The module's maps \<open>lastHandled\<close> and \<open>lastGitHubSha\<close> are the fields of the
    record \<open>watcher\<close>, passed through every function that reads or writes them; the
    map \<open>timers\<close> is a field of the event loop, next to the pending timeouts.
  \<^item> What the file system and the network answer is an argument of the function that
    awaits the answer (\<open>stat_result\<close>, \<open>read_result\<close>, \<open>response\<close>).
  \<^item> What a function does to the outside and to the maps is the list of \<open>effect\<close>s it
    returns, in program order.
\<close>

subsection \<open>Configuration\<close>

record target =
  name :: string
  agent :: string
  notifyFor :: string

definition TARGETS :: "target list" where
  "TARGETS =
    [\<lparr>name = ''notify-cascade'', agent = ''Cascade'', notifyFor = ''Replit''\<rparr>,
     \<lparr>name = ''notify-replit'', agent = ''Replit'', notifyFor = ''Cascade''\<rparr>]"

definition POLL_GITHUB_MS :: nat where
  "POLL_GITHUB_MS = 10000"

definition debounceMs :: nat where
  "debounceMs = 750"

definition localPollMs :: nat where
  "localPollMs = 5000"

text \<open>
  \<open>LOCAL_FLAG_DIR\<close> is \<open>.handoff\<close> under the working directory; paths are kept
  relative to the working directory. \<open>path.join\<close> of a directory and a plain file name
  puts a separator between them.
\<close>

definition LOCAL_FLAG_DIR :: string where
  "LOCAL_FLAG_DIR = ''.handoff''"

definition path_join :: "string \<Rightarrow> string \<Rightarrow> string" where
  "path_join dir file = dir @ ''/'' @ file"

subsection \<open>State and effects\<close>

text \<open>
  \<open>lastGitHubSha\<close> holds what \<open>data.sha\<close> of a response was: a string, or \<open>undefined\<close>
  (\<open>None\<close>) when the response had no such field.
\<close>

record watcher =
  lastHandled :: "string \<rightharpoonup> real"
  lastGitHubSha :: "string \<rightharpoonup> string option"

definition initial :: watcher where
  "initial = \<lparr>lastHandled = Map.empty, lastGitHubSha = Map.empty\<rparr>"

datatype effect =
    SetLastHandled string real
  | SetLastGitHubSha string "string option"
  | TriggerNotification string string
  | CopyClipboard string
  | NotifyDesktop string
  | ConsoleLog string
  | ConsoleError string

text \<open>
  \<open>TriggerNotification fromAgent ctx\<close> is the call \<open>triggerNotification(fromAgent, context)\<close>
  of a channel: one NotificationEvent. What the call does is \<open>triggerNotification\<close> below.
\<close>

fun is_notification :: "effect \<Rightarrow> bool" where
  "is_notification (TriggerNotification a c) = True"
| "is_notification e = False"

definition notifications :: "effect list \<Rightarrow> effect list" where
  "notifications es = filter is_notification es"

subsection \<open>String helpers of the runtime\<close>

text \<open>
  \<open>String.prototype.trim\<close> removes white space and line terminators from both ends. In
  the range of code units of this model these are TAB, LF, VT, FF, CR, SP and NBSP.
\<close>

definition isWhiteSpace :: "char \<Rightarrow> bool" where
  "isWhiteSpace c =
    (c = CHR 0x09 \<or> c = CHR 0x0A \<or> c = CHR 0x0B \<or> c = CHR 0x0C \<or> c = CHR 0x0D \<or>
     c = CHR 0x20 \<or> c = CHR 0xA0)"

definition trim :: "string \<Rightarrow> string" where
  "trim s = rev (dropWhile isWhiteSpace (rev (dropWhile isWhiteSpace s)))"

text \<open>
  \<open>toUpperCase\<close> on the letters a to z; other code units are left as they are (the
  agents of \<open>TARGETS\<close> are written in ASCII letters).
\<close>

definition upperChar :: "char \<Rightarrow> char" where
  "upperChar c =
    (if 97 \<le> (of_char c :: nat) \<and> (of_char c :: nat) \<le> 122
     then char_of ((of_char c :: nat) - 32) else c)"

definition toUpperCase :: "string \<Rightarrow> string" where
  "toUpperCase s = map upperChar s"

subsection \<open>The dispatcher: triggerNotification\<close>

text \<open>
  The \<open>prompt\<close> constant of \<open>triggerNotification\<close>: a JavaScript string is truthy when
  it is not empty.
\<close>

definition prompt :: "string \<Rightarrow> string \<Rightarrow> string" where
  "prompt fromAgent ctx =
    (if ctx \<noteq> []
     then fromAgent @ '' has a message for you. Check .ai/dialogue.json and .handoff/collab.json, then respond to continue the conversation. Context: '' @ ctx
     else fromAgent @ '' has a message for you. Check .ai/dialogue.json and .handoff/collab.json, then respond to continue the conversation.'')"

definition toastMsg :: "string \<Rightarrow> string" where
  "toastMsg fromAgent = ''Message from '' @ fromAgent @ '' - paste to continue''"

text \<open>
  \<open>copyClipboard\<close> and \<open>notifyDesktop\<close> are the transports; a failure of the first is
  swallowed by \<open>.catch\<close>, and the second logs a fallback line when the notifier cannot be
  loaded (\<open>notifierOk\<close> says whether it can).
\<close>

definition notifyDesktop :: "bool \<Rightarrow> string \<Rightarrow> effect list" where
  "notifyDesktop notifierOk message =
    (if notifierOk then [NotifyDesktop message]
     else [ConsoleLog (''[notify-fallback] '' @ message)])"

definition triggerNotification :: "bool \<Rightarrow> string \<Rightarrow> string \<Rightarrow> effect list" where
  "triggerNotification notifierOk fromAgent ctx =
    [CopyClipboard (prompt fromAgent ctx)] @
    notifyDesktop notifierOk (toastMsg fromAgent) @
    [ConsoleLog '''',
     ConsoleLog ''========================================'',
     ConsoleLog (toUpperCase fromAgent @ '': CHECK MESSAGES!''),
     ConsoleLog ''========================================'',
     ConsoleLog (''[clipboard] '' @ prompt fromAgent ctx),
     ConsoleLog '''']"

subsection \<open>The local channel: handleLocalFlag\<close>

text \<open>
  What \<open>fs.stat\<close> answers: the modification time, the error with code \<open>ENOENT\<close>, or
  another error with its message. What \<open>fs.readFile\<close> answers: the text, or an error.
\<close>

datatype stat_result = StatOk real | StatENOENT | StatError string

datatype read_result = ReadOk string | ReadError

definition filePath :: "target \<Rightarrow> string" where
  "filePath tg = path_join LOCAL_FLAG_DIR (name tg)"

text \<open>
  \<open>lastHandled.get(filePath) || 0\<close>: an absent entry is \<open>undefined\<close>, which is falsy, and
  a stored \<open>0\<close> is falsy too; both give \<open>0\<close>.
\<close>

definition prevHandled :: "watcher \<Rightarrow> string \<Rightarrow> real" where
  "prevHandled w p = (case lastHandled w p of None \<Rightarrow> 0 | Some v \<Rightarrow> if v = 0 then 0 else v)"

definition handleLocalFlag ::
    "target \<Rightarrow> stat_result \<Rightarrow> read_result \<Rightarrow> watcher \<Rightarrow> effect list \<times> watcher" where
  "handleLocalFlag tg st rd w =
    (case st of
       StatOk mtimeMs \<Rightarrow>
         (let prev = prevHandled w (filePath tg) in
          if mtimeMs \<le> prev then ([], w)
          else
            (let w' = w\<lparr>lastHandled := (lastHandled w)(filePath tg \<mapsto> mtimeMs)\<rparr>;
                 ctx = (case rd of ReadOk text \<Rightarrow> trim text | ReadError \<Rightarrow> [])
             in ([SetLastHandled (filePath tg) mtimeMs, TriggerNotification (agent tg) ctx], w')))
     | StatENOENT \<Rightarrow> ([], w)
     | StatError msg \<Rightarrow> ([ConsoleError (''[local] error: '' @ msg)], w))"

text \<open>
  The checks of a tick of the scan (\<open>TARGETS.forEach(handleLocalFlag)\<close> in the callback of
  \<open>setInterval\<close>), each run to its end before the next, given what the file system
  answers for each path. The code starts the checks together and they take turns at their
  awaits, so the effects of different signals come in another order there (first the
  writes, then the notifications); the effects of each signal are the same. The event
  loop below starts the checks as the code does.
\<close>

fun scanTargets ::
    "target list \<Rightarrow> (string \<Rightarrow> stat_result) \<Rightarrow> (string \<Rightarrow> read_result) \<Rightarrow> watcher \<Rightarrow>
      effect list \<times> watcher" where
  "scanTargets [] st rd w = ([], w)"
| "scanTargets (tg # tgs) st rd w =
    (case handleLocalFlag tg (st (filePath tg)) (rd (filePath tg)) w of
       (es, w') \<Rightarrow> (case scanTargets tgs st rd w' of (es', w'') \<Rightarrow> (es @ es', w'')))"

definition localPollTick ::
    "(string \<Rightarrow> stat_result) \<Rightarrow> (string \<Rightarrow> read_result) \<Rightarrow> watcher \<Rightarrow> effect list \<times> watcher" where
  "localPollTick st rd w = scanTargets TARGETS st rd w"

subsection \<open>The checks of the local channel, one await at a time\<close>

text \<open>
  \<open>handleLocalFlag\<close> is an async function: it gives the control back at \<open>await fs.stat\<close>
  and at \<open>await fs.readFile\<close>, and other callbacks (a second check of the same signal,
  started by the debounce timer or by the scan) run in between. Between two awaits the
  code runs without interruption. A check is a task with a program counter; a move of
  the scheduler starts a check or resumes one with the answer it awaits. The trace keeps
  the effects in the order they happen, each with the index of the task that performs it.
\<close>

datatype pc = AwaitStat | AwaitRead | Finished

text \<open>From the answer of \<open>fs.stat\<close> to the call of \<open>fs.readFile\<close>.\<close>

definition afterStat :: "target \<Rightarrow> stat_result \<Rightarrow> watcher \<Rightarrow> pc \<times> effect list \<times> watcher" where
  "afterStat tg st w =
    (case st of
       StatOk mtimeMs \<Rightarrow>
         (let prev = prevHandled w (filePath tg) in
          if mtimeMs \<le> prev then (Finished, [], w)
          else (AwaitRead, [SetLastHandled (filePath tg) mtimeMs],
                w\<lparr>lastHandled := (lastHandled w)(filePath tg \<mapsto> mtimeMs)\<rparr>))
     | StatENOENT \<Rightarrow> (Finished, [], w)
     | StatError msg \<Rightarrow> (Finished, [ConsoleError (''[local] error: '' @ msg)], w))"

text \<open>From the answer of \<open>fs.readFile\<close> to the end.\<close>

definition afterRead :: "target \<Rightarrow> read_result \<Rightarrow> effect list" where
  "afterRead tg rd =
    [TriggerNotification (agent tg) (case rd of ReadOk text \<Rightarrow> trim text | ReadError \<Rightarrow> [])]"

record sys =
  store :: watcher
  tasks :: "(target \<times> pc) list"
  trace :: "(nat \<times> effect) list"

datatype move = Start target | StatDone nat stat_result | ReadDone nat read_result

fun step :: "move \<Rightarrow> sys \<Rightarrow> sys" where
  "step (Start tg) s = s\<lparr>tasks := tasks s @ [(tg, AwaitStat)]\<rparr>"
| "step (StatDone i st) s =
    (if i < length (tasks s) \<and> snd (tasks s ! i) = AwaitStat then
       (let tg = fst (tasks s ! i) in
        case afterStat tg st (store s) of
          (pc', es, w') \<Rightarrow>
            s\<lparr>store := w', tasks := (tasks s)[i := (tg, pc')],
              trace := trace s @ map (Pair i) es\<rparr>)
     else s)"
| "step (ReadDone i rd) s =
    (if i < length (tasks s) \<and> snd (tasks s ! i) = AwaitRead then
       (let tg = fst (tasks s ! i) in
        s\<lparr>tasks := (tasks s)[i := (tg, Finished)],
          trace := trace s @ map (Pair i) (afterRead tg rd)\<rparr>)
     else s)"

definition run :: "move list \<Rightarrow> sys \<Rightarrow> sys" where
  "run moves s = foldl (\<lambda>s m. step m s) s moves"

definition start :: "watcher \<Rightarrow> sys" where
  "start w = \<lparr>store = w, tasks = [], trace = []\<rparr>"

text \<open>The effects of task \<open>i\<close> in a trace.\<close>

definition effectsOf :: "nat \<Rightarrow> (nat \<times> effect) list \<Rightarrow> effect list" where
  "effectsOf i tr = map snd (filter (\<lambda>x. fst x = i) tr)"

text \<open>
  What holds of every system reached from \<open>start\<close>. A task that awaits \<open>fs.stat\<close> has
  done nothing; one that awaits \<open>fs.readFile\<close> has written its modification time and
  nothing else; one that is finished has done nothing, or logged an error, or written
  its time and then sent one notification. Every time written for a path is at most the
  time stored for it, and no two tasks have written the same time for the same path.
\<close>

definition taskOk :: "(nat \<times> effect) list \<Rightarrow> nat \<Rightarrow> target \<times> pc \<Rightarrow> bool" where
  "taskOk tr i t =
    (case snd t of
       AwaitStat \<Rightarrow> effectsOf i tr = []
     | AwaitRead \<Rightarrow> (\<exists>m. effectsOf i tr = [SetLastHandled (filePath (fst t)) m])
     | Finished \<Rightarrow>
         effectsOf i tr = [] \<or> (\<exists>msg. effectsOf i tr = [ConsoleError msg]) \<or>
         (\<exists>m c. effectsOf i tr =
            [SetLastHandled (filePath (fst t)) m, TriggerNotification (agent (fst t)) c]))"

definition consistent :: "sys \<Rightarrow> bool" where
  "consistent s =
    ((\<forall>i<length (tasks s). taskOk (trace s) i (tasks s ! i)) \<and>
     (\<forall>x\<in>set (trace s). fst x < length (tasks s)) \<and>
     (\<forall>i p m. (i, SetLastHandled p m) \<in> set (trace s) \<longrightarrow> m \<le> prevHandled (store s) p) \<and>
     (\<forall>i j p m. (i, SetLastHandled p m) \<in> set (trace s) \<longrightarrow>
        (j, SetLastHandled p m) \<in> set (trace s) \<longrightarrow> i = j))"

subsection \<open>The event loop of the local channel\<close>

text \<open>
  The runtime keeps the pending timeouts: \<open>setTimeout\<close> adds one and returns its
  handle, \<open>clearTimeout\<close> removes it. Time is in milliseconds. The loop holds the checks
  that are running (\<open>procs\<close>, with the maps of the watcher and the effects so far), the
  map \<open>timers\<close> of the module, the pending timeouts and the next handle.
\<close>

record timeout =
  handle :: nat
  due :: nat
  arg :: target

record loop =
  procs :: sys
  timers :: "string \<rightharpoonup> nat"
  pending :: "timeout list"
  nextHandle :: nat

definition clearTimeout :: "nat \<Rightarrow> timeout list \<Rightarrow> timeout list" where
  "clearTimeout h ps = filter (\<lambda>p. handle p \<noteq> h) ps"

definition debounceLocalHandle :: "nat \<Rightarrow> target \<Rightarrow> loop \<Rightarrow> loop" where
  "debounceLocalHandle now tg lp =
    (let key = name tg;
         ps = (case timers lp key of
                 Some h \<Rightarrow> clearTimeout h (pending lp)
               | None \<Rightarrow> pending lp);
         h = nextHandle lp
     in lp\<lparr>timers := (timers lp)(key \<mapsto> h),
           pending := ps @ [\<lparr>handle = h, due = now + debounceMs, arg = tg\<rparr>],
           nextHandle := h + 1\<rparr>)"

text \<open>
  The callback given to \<open>setTimeout\<close>: it deletes the entry of \<open>timers\<close> and calls
  \<open>handleLocalFlag\<close>, which runs to its first await: a check is started.
\<close>

definition timeoutCallback :: "target \<Rightarrow> loop \<Rightarrow> loop" where
  "timeoutCallback tg lp =
    lp\<lparr>timers := (timers lp)(name tg := None), procs := step (Start tg) (procs lp)\<rparr>"

text \<open>The callback of \<open>watch\<close> in \<open>startLocalWatcher\<close>.\<close>

definition onWatchEvent :: "nat \<Rightarrow> string option \<Rightarrow> loop \<Rightarrow> loop" where
  "onWatchEvent now filename lp =
    (case filename of
       None \<Rightarrow> lp
     | Some f \<Rightarrow>
         if f = [] then lp
         else (case find (\<lambda>t. name t = f) TARGETS of
                 None \<Rightarrow> lp
               | Some tg \<Rightarrow> debounceLocalHandle now tg lp))"

text \<open>
  The callback of \<open>setInterval\<close> in \<open>startLocalWatcher\<close>: \<open>TARGETS.forEach(handleLocalFlag)\<close>
  starts one check for each target, in the order of \<open>TARGETS\<close>.
\<close>

definition onScanTick :: "loop \<Rightarrow> loop" where
  "onScanTick lp = lp\<lparr>procs := fold (\<lambda>tg s. step (Start tg) s) TARGETS (procs lp)\<rparr>"

text \<open>
  One iteration of the event loop at time \<open>now\<close>: first the timeouts that are due, the
  earliest first, then the callback of the event. The events are a change notification
  of the directory with its file name, a tick of the scan, the answer of \<open>fs.stat\<close> or of
  \<open>fs.readFile\<close> that a running check awaits, and an iteration with nothing but timers.
\<close>

definition fire :: "timeout \<Rightarrow> loop \<Rightarrow> loop" where
  "fire p lp = timeoutCallback (arg p) (lp\<lparr>pending := clearTimeout (handle p) (pending lp)\<rparr>)"

definition dueAt :: "nat \<Rightarrow> loop \<Rightarrow> timeout list" where
  "dueAt now lp = sort_key due (filter (\<lambda>p. due p \<le> now) (pending lp))"

definition runTimers :: "nat \<Rightarrow> loop \<Rightarrow> loop" where
  "runTimers now lp = fold fire (dueAt now lp) lp"

datatype loop_event =
    WatchEvent "string option"
  | ScanTick
  | StatAnswer nat stat_result
  | ReadAnswer nat read_result
  | Idle

fun loopStep :: "nat \<times> loop_event \<Rightarrow> loop \<Rightarrow> loop" where
  "loopStep (now, WatchEvent filename) lp = onWatchEvent now filename (runTimers now lp)"
| "loopStep (now, ScanTick) lp = onScanTick (runTimers now lp)"
| "loopStep (now, StatAnswer i st) lp =
    (runTimers now lp)\<lparr>procs := step (StatDone i st) (procs (runTimers now lp))\<rparr>"
| "loopStep (now, ReadAnswer i rd) lp =
    (runTimers now lp)\<lparr>procs := step (ReadDone i rd) (procs (runTimers now lp))\<rparr>"
| "loopStep (now, Idle) lp = runTimers now lp"

definition runLoop :: "(nat \<times> loop_event) list \<Rightarrow> loop \<Rightarrow> loop" where
  "runLoop evs lp = foldl (\<lambda>lp e. loopStep e lp) lp evs"

definition boot :: loop where
  "boot = \<lparr>procs = start initial, timers = Map.empty, pending = [], nextHandle = 0\<rparr>"

text \<open>
  The events that follow a change notification for the file of a target at time \<open>t\<close> and
  fall in its debounce window: each comes less than \<open>debounceMs\<close> after the last change
  notification for that file before it. They may be anything: change notifications for
  this file or for other entries of the directory, ticks of the scan, answers to running
  checks. \<open>lastWatch\<close> is the time of the last change notification for the file and
  \<open>scanTicks\<close> counts the ticks of the scan.
\<close>

definition watchOf :: "target \<Rightarrow> loop_event" where
  "watchOf tg = WatchEvent (Some (name tg))"

fun inWindow :: "target \<Rightarrow> nat \<Rightarrow> (nat \<times> loop_event) list \<Rightarrow> bool" where
  "inWindow tg t [] = True"
| "inWindow tg t ((u, ev) # evs) =
    (u < t + debounceMs \<and> inWindow tg (if ev = watchOf tg then u else t) evs)"

fun lastWatch :: "target \<Rightarrow> nat \<Rightarrow> (nat \<times> loop_event) list \<Rightarrow> nat" where
  "lastWatch tg t [] = t"
| "lastWatch tg t ((u, ev) # evs) = lastWatch tg (if ev = watchOf tg then u else t) evs"

definition scanTicks :: "(nat \<times> loop_event) list \<Rightarrow> nat" where
  "scanTicks evs = length (filter (\<lambda>e. snd e = ScanTick) evs)"

text \<open>The pending timeouts of a target, and the checks of a target among the checks.\<close>

definition timeoutsOf :: "target \<Rightarrow> loop \<Rightarrow> timeout list" where
  "timeoutsOf tg lp = filter (\<lambda>p. arg p = tg) (pending lp)"

definition checksOf :: "target \<Rightarrow> (target \<times> pc) list \<Rightarrow> (target \<times> pc) list" where
  "checksOf tg cs = filter (\<lambda>c. fst c = tg) cs"

text \<open>
  What holds of the timeouts of every loop reached from \<open>boot\<close>: each pending timeout is
  for a target of \<open>TARGETS\<close>, \<open>timers\<close> holds its handle under the name of the target, the
  handle is below the next one, every entry of \<open>timers\<close> is the handle of a pending
  timeout of that name, and no two pending timeouts have the same handle.
\<close>

definition wellFormed :: "loop \<Rightarrow> bool" where
  "wellFormed lp =
    ((\<forall>p\<in>set (pending lp).
        arg p \<in> set TARGETS \<and> timers lp (name (arg p)) = Some (handle p) \<and>
        handle p < nextHandle lp) \<and>
     (\<forall>k h. timers lp k = Some h \<longrightarrow>
        (\<exists>p\<in>set (pending lp). handle p = h \<and> name (arg p) = k)) \<and>
     distinct (map handle (pending lp)))"

text \<open>
  For the proofs: the timeouts that \<open>debounceLocalHandle\<close> keeps, a loop with exactly one
  timeout of the target pending, due at \<open>d\<close>, and the number of checks of a target that
  were started.
\<close>

definition kept :: "target \<Rightarrow> loop \<Rightarrow> timeout list" where
  "kept tg lp =
    (case timers lp (name tg) of Some h \<Rightarrow> clearTimeout h (pending lp) | None \<Rightarrow> pending lp)"

definition armedFor :: "target \<Rightarrow> nat \<Rightarrow> loop \<Rightarrow> bool" where
  "armedFor tg d lp =
    (wellFormed lp \<and> (\<exists>h. timeoutsOf tg lp = [\<lparr>handle = h, due = d, arg = tg\<rparr>]))"

definition startedFor :: "target \<Rightarrow> loop \<Rightarrow> nat" where
  "startedFor tg lp = length (checksOf tg (tasks (procs lp)))"

subsection \<open>The remote channel: fetchGitHubFile and pollGitHub\<close>

text \<open>
  What \<open>fetch\<close> answers: it rejects, or it resolves to a response with its \<open>ok\<close> flag and
  what \<open>response.json()\<close> gives. The body of the GitHub contents API is an object whose
  fields \<open>sha\<close> and \<open>content\<close> are strings when they are present; \<open>JsonRejects\<close> stands for
  a body that cannot be parsed or that has no fields to read (\<open>null\<close>).
  \<open>Buffer.from(_, "base64").toString("utf-8")\<close> belongs to the runtime and is the
  parameter \<open>decode\<close>.
\<close>

datatype json = JsonRejects | JsonData "string option" "string option"

datatype response = FetchRejects | Response bool json

record fetched =
  sha :: "string option"
  content :: string

definition fetchGitHubFile :: "(string \<Rightarrow> string) \<Rightarrow> response \<Rightarrow> fetched option" where
  "fetchGitHubFile decode resp =
    (case resp of
       FetchRejects \<Rightarrow> None
     | Response ok body \<Rightarrow>
         if \<not> ok then None
         else (case body of
                 JsonRejects \<Rightarrow> None
               | JsonData data_sha data_content \<Rightarrow>
                   Some \<lparr>sha = data_sha,
                         content = (case data_content of
                                      Some c \<Rightarrow> if c \<noteq> [] then trim (decode c) else []
                                    | None \<Rightarrow> [])\<rparr>))"

text \<open>\<open>lastGitHubSha.get(name)\<close>: \<open>undefined\<close> for an absent key.\<close>

definition getSha :: "watcher \<Rightarrow> string \<Rightarrow> string option" where
  "getSha w k = (case lastGitHubSha w k of None \<Rightarrow> None | Some v \<Rightarrow> v)"

text \<open>\<open>!prevSha\<close>: \<open>undefined\<close> and the empty string are falsy.\<close>

definition falsy :: "string option \<Rightarrow> bool" where
  "falsy v = (case v of None \<Rightarrow> True | Some s \<Rightarrow> s = [])"

datatype completion = Returned | Threw

text \<open>
  The body of the loop of \<open>pollGitHub\<close> for one target, given what \<open>fetchGitHubFile\<close>
  returned. \<open>result.sha.slice\<close> throws a TypeError when \<open>result.sha\<close> is \<open>undefined\<close>.
\<close>

definition pollTarget ::
    "target \<Rightarrow> fetched option \<Rightarrow> watcher \<Rightarrow> completion \<times> effect list \<times> watcher" where
  "pollTarget tg result w =
    (case result of
       None \<Rightarrow> (Returned, [], w)
     | Some r \<Rightarrow>
         (let prevSha = getSha w (name tg) in
          if prevSha = sha r then (Returned, [], w)
          else
            (let w' = w\<lparr>lastGitHubSha := (lastGitHubSha w)(name tg \<mapsto> sha r)\<rparr> in
             if falsy prevSha then
               (case sha r of
                  None \<Rightarrow> (Threw, [SetLastGitHubSha (name tg) (sha r)], w')
                | Some s \<Rightarrow>
                    (Returned,
                     [SetLastGitHubSha (name tg) (sha r),
                      ConsoleLog (''[github] tracking '' @ name tg @ '' (sha: '' @ take 7 s @ '')'')],
                     w'))
             else
               (Returned,
                [SetLastGitHubSha (name tg) (sha r),
                 ConsoleLog (''[github] new flag detected: '' @ name tg),
                 TriggerNotification (agent tg) (content r)],
                w'))))"

text \<open>The loop of \<open>pollGitHub\<close>; an exception leaves it.\<close>

fun pollTargets ::
    "target list \<Rightarrow> (string \<Rightarrow> string) \<Rightarrow> (string \<Rightarrow> response) \<Rightarrow> watcher \<Rightarrow>
      completion \<times> effect list \<times> watcher" where
  "pollTargets [] decode net w = (Returned, [], w)"
| "pollTargets (tg # tgs) decode net w =
    (case pollTarget tg (fetchGitHubFile decode (net (name tg))) w of
       (Threw, es, w') \<Rightarrow> (Threw, es, w')
     | (Returned, es, w') \<Rightarrow>
         (case pollTargets tgs decode net w' of (c, es', w'') \<Rightarrow> (c, es @ es', w'')))"

definition pollGitHub ::
    "(string \<Rightarrow> string) \<Rightarrow> (string \<Rightarrow> response) \<Rightarrow> watcher \<Rightarrow>
      completion \<times> effect list \<times> watcher" where
  "pollGitHub decode net w = pollTargets TARGETS decode net w"

text \<open>
  The ticks of one signal, one after the other: each tick brings what the fetch of that
  tick answered. A loop body that throws does not stop the later ticks here; a runtime
  that ends the process on the rejected promise of \<open>pollGitHub\<close> has no later ticks, so
  these runs include all of its runs.
\<close>

fun pollTicks ::
    "target \<Rightarrow> (string \<Rightarrow> string) \<Rightarrow> response list \<Rightarrow> watcher \<Rightarrow> effect list \<times> watcher" where
  "pollTicks tg decode [] w = ([], w)"
| "pollTicks tg decode (resp # resps) w =
    (case pollTarget tg (fetchGitHubFile decode resp) w of
       (c, es, w') \<Rightarrow> (case pollTicks tg decode resps w' of (es', w'') \<Rightarrow> (es @ es', w'')))"

text \<open>
  Any sequence of loop bodies of \<open>pollGitHub\<close>, over any targets: the states it reaches
  are the reachable states of the remote channel.
\<close>

fun pollSteps :: "(target \<times> fetched option) list \<Rightarrow> watcher \<Rightarrow> effect list \<times> watcher" where
  "pollSteps [] w = ([], w)"
| "pollSteps ((tg, result) # rest) w =
    (case pollTarget tg result w of
       (c, es, w') \<Rightarrow> (case pollSteps rest w' of (es', w'') \<Rightarrow> (es @ es', w'')))"

text \<open>The fingerprint of the last successful fetch for a name, if there was one.\<close>

fun lastFetched :: "string \<Rightarrow> (target \<times> fetched option) list \<Rightarrow> string option option" where
  "lastFetched k [] = None"
| "lastFetched k ((tg, result) # rest) =
    (case lastFetched k rest of
       Some v \<Rightarrow> Some v
     | None \<Rightarrow> (case result of
                  Some r \<Rightarrow> if name tg = k then Some (sha r) else None
                | None \<Rightarrow> None))"

text \<open>A response that makes \<open>fetchGitHubFile\<close> return \<open>null\<close>.\<close>

fun failed :: "response \<Rightarrow> bool" where
  "failed FetchRejects = True"
| "failed (Response ok JsonRejects) = True"
| "failed (Response ok (JsonData s c)) = (\<not> ok)"

section \<open>Properties\<close>

subsection \<open>The prompt\<close>

lemma prompt_empty:
  "prompt fromAgent [] = fromAgent @ '' has a message for you. Check .ai/dialogue.json and .handoff/collab.json, then respond to continue the conversation.''"
  by (simp add: prompt_def)

lemma prompt_nonempty:
  "ctx \<noteq> [] \<Longrightarrow> prompt fromAgent ctx = fromAgent @ '' has a message for you. Check .ai/dialogue.json and .handoff/collab.json, then respond to continue the conversation. Context: '' @ ctx"
  by (simp add: prompt_def)

lemma prefix_prompt: "prefix fromAgent (prompt fromAgent ctx)"
  by (simp add: prompt_def)

lemma suffix_prompt: "suffix ctx (prompt fromAgent ctx)"
  by (simp add: prompt_def suffix_def)

lemma instruction_without_context:
  "\<not> sublist ''Context:'' '' has a message for you. Check .ai/dialogue.json and .handoff/collab.json, then respond to continue the conversation.''"
  by code_simp

lemma no_context_clause:
  assumes "\<not> sublist ''Context:'' fromAgent"
  shows "\<not> sublist ''Context:'' (prompt fromAgent [])"
proof
  assume "sublist ''Context:'' (prompt fromAgent [])"
  then have "sublist ''Context:'' (fromAgent @ '' has a message for you. Check .ai/dialogue.json and .handoff/collab.json, then respond to continue the conversation.'')"
    by (simp add: prompt_def)
  then consider "sublist ''Context:'' fromAgent"
    | "sublist ''Context:'' '' has a message for you. Check .ai/dialogue.json and .handoff/collab.json, then respond to continue the conversation.''"
    | xs1 xs2 where "''Context:'' = xs1 @ xs2" "suffix xs1 fromAgent" "prefix xs2 '' has a message for you. Check .ai/dialogue.json and .handoff/collab.json, then respond to continue the conversation.''"
    unfolding sublist_append by blast
  then show False
  proof cases
    case 1 with assms show False by simp
  next
    case 2 then show False using instruction_without_context by simp
  next
    case 3
    show False
    proof (cases xs2)
      case Nil
      with 3 have "suffix ''Context:'' fromAgent" by simp
      then have "sublist ''Context:'' fromAgent" by (rule suffix_imp_sublist)
      with assms show False by simp
    next
      case (Cons c cs)
      with 3(3) have "c = CHR '' ''" by simp
      moreover from 3(1) Cons have "c \<in> set ''Context:''"
        by (metis in_set_conv_decomp)
      ultimately show False by simp
    qed
  qed
qed

text \<open>
  Claim C8. Every dispatch copies the prompt to the clipboard and prints it. The prompt
  starts with the name of the agent the notification comes from. With an empty context
  it is the name and the instruction, with no \<open>Context:\<close> clause (the text \<open>Context:\<close>
  occurs in it only if the name of the agent has it). With a context that is not empty
  it is the name, the instruction, \<open>Context:\<close> and the context, so it ends with the
  context.
\<close>

theorem prompt_embeds_agent_and_context:
  "CopyClipboard (prompt fromAgent ctx) \<in> set (triggerNotification notifierOk fromAgent ctx) \<and>
   ConsoleLog (''[clipboard] '' @ prompt fromAgent ctx) \<in> set (triggerNotification notifierOk fromAgent ctx) \<and>
   prefix fromAgent (prompt fromAgent ctx) \<and>
   prompt fromAgent [] = fromAgent @ '' has a message for you. Check .ai/dialogue.json and .handoff/collab.json, then respond to continue the conversation.'' \<and>
   (\<not> sublist ''Context:'' fromAgent \<longrightarrow> \<not> sublist ''Context:'' (prompt fromAgent [])) \<and>
   (ctx \<noteq> [] \<longrightarrow>
      suffix ctx (prompt fromAgent ctx) \<and>
      prompt fromAgent ctx = fromAgent @ '' has a message for you. Check .ai/dialogue.json and .handoff/collab.json, then respond to continue the conversation. Context: '' @ ctx)"
proof -
  have "CopyClipboard (prompt fromAgent ctx) \<in> set (triggerNotification notifierOk fromAgent ctx)"
    by (simp add: triggerNotification_def)
  moreover have "ConsoleLog (''[clipboard] '' @ prompt fromAgent ctx) \<in> set (triggerNotification notifierOk fromAgent ctx)"
    by (simp add: triggerNotification_def)
  moreover have "prompt fromAgent [] = fromAgent @ '' has a message for you. Check .ai/dialogue.json and .handoff/collab.json, then respond to continue the conversation.''"
    by (rule prompt_empty)
  moreover have "ctx \<noteq> [] \<longrightarrow> prompt fromAgent ctx = fromAgent @ '' has a message for you. Check .ai/dialogue.json and .handoff/collab.json, then respond to continue the conversation. Context: '' @ ctx"
    using prompt_nonempty by blast
  ultimately show ?thesis
    using prefix_prompt suffix_prompt no_context_clause by blast
qed

theorem prompt_embeds_agent_and_context_witness:
  "''ping'' \<noteq> [] \<and>
   \<not> sublist ''Context:'' ''Cascade'' \<and>
   prefix ''Cascade'' (prompt ''Cascade'' ''ping'') \<and>
   suffix ''ping'' (prompt ''Cascade'' ''ping'') \<and>
   prompt ''Cascade'' ''ping'' = ''Cascade'' @ '' has a message for you. Check .ai/dialogue.json and .handoff/collab.json, then respond to continue the conversation. Context: '' @ ''ping'' \<and>
   prompt ''Cascade'' [] = ''Cascade'' @ '' has a message for you. Check .ai/dialogue.json and .handoff/collab.json, then respond to continue the conversation.'' \<and>
   \<not> sublist ''Context:'' (prompt ''Cascade'' [])"
proof -
  have a: "\<not> sublist ''Context:'' ''Cascade''" by code_simp
  have b: "''ping'' \<noteq> []" by simp
  from a b prompt_embeds_agent_and_context [of "''Cascade''" "''ping''" True]
  show ?thesis by blast
qed

subsection \<open>The local check\<close>

lemma prevHandled_simp: "prevHandled w p = (case lastHandled w p of None \<Rightarrow> 0 | Some v \<Rightarrow> v)"
  by (simp add: prevHandled_def split: option.splits)

lemma handleLocalFlag_new:
  "prevHandled w (filePath tg) < m \<Longrightarrow>
   handleLocalFlag tg (StatOk m) rd w =
     ([SetLastHandled (filePath tg) m,
       TriggerNotification (agent tg) (case rd of ReadOk text \<Rightarrow> trim text | ReadError \<Rightarrow> [])],
      w\<lparr>lastHandled := (lastHandled w)(filePath tg \<mapsto> m)\<rparr>)"
  by (simp add: handleLocalFlag_def Let_def)

lemma handleLocalFlag_old:
  "m \<le> prevHandled w (filePath tg) \<Longrightarrow> handleLocalFlag tg (StatOk m) rd w = ([], w)"
  by (simp add: handleLocalFlag_def Let_def)

lemma handleLocalFlag_enoent: "handleLocalFlag tg StatENOENT rd w = ([], w)"
  by (simp add: handleLocalFlag_def)

lemma handleLocalFlag_error:
  "handleLocalFlag tg (StatError msg) rd w = ([ConsoleError (''[local] error: '' @ msg)], w)"
  by (simp add: handleLocalFlag_def)

lemma prevHandled_update [simp]:
  "prevHandled (w\<lparr>lastHandled := (lastHandled w)(p \<mapsto> m)\<rparr>) p = m"
  by (simp add: prevHandled_simp)

lemma prevHandled_update_other [simp]:
  "q \<noteq> p \<Longrightarrow> prevHandled (w\<lparr>lastHandled := (lastHandled w)(p \<mapsto> m)\<rparr>) q = prevHandled w q"
  by (simp add: prevHandled_simp)

lemma notifications_handleLocalFlag:
  "notifications (fst (handleLocalFlag tg st rd w)) =
    (case st of
       StatOk m \<Rightarrow>
         if prevHandled w (filePath tg) < m
         then [TriggerNotification (agent tg) (case rd of ReadOk text \<Rightarrow> trim text | ReadError \<Rightarrow> [])]
         else []
     | _ \<Rightarrow> [])"
  by (cases st)
     (simp_all add: handleLocalFlag_new handleLocalFlag_old handleLocalFlag_enoent
        handleLocalFlag_error notifications_def not_less)

text \<open>
  Claim C1, as amended. A local check sends a notification if and only if \<open>fs.stat\<close>
  succeeds and the modification time is greater than the stored \<open>lastHandled\<close> time,
  where a missing entry counts as \<open>0\<close>; it never sends more than one. For a file with a
  modification time \<open>T\<close> above that bound the check sends exactly one notification and
  stores \<open>T\<close>; every later check that sees \<open>T\<close> again, or an earlier time, does nothing.
\<close>

theorem local_dispatch_iff_newer:
  "(notifications (fst (handleLocalFlag tg st rd w)) \<noteq> [] \<longleftrightarrow>
      (\<exists>m. st = StatOk m \<and> prevHandled w (filePath tg) < m)) \<and>
   length (notifications (fst (handleLocalFlag tg st rd w))) \<le> 1 \<and>
   (prevHandled w (filePath tg) < T \<longrightarrow>
      notifications (fst (handleLocalFlag tg (StatOk T) rd w)) =
        [TriggerNotification (agent tg) (case rd of ReadOk text \<Rightarrow> trim text | ReadError \<Rightarrow> [])] \<and>
      lastHandled (snd (handleLocalFlag tg (StatOk T) rd w)) (filePath tg) = Some T \<and>
      (\<forall>T' rd'. T' \<le> T \<longrightarrow>
         handleLocalFlag tg (StatOk T') rd' (snd (handleLocalFlag tg (StatOk T) rd w)) =
           ([], snd (handleLocalFlag tg (StatOk T) rd w))))"
proof -
  have "notifications (fst (handleLocalFlag tg st rd w)) \<noteq> [] \<longleftrightarrow>
      (\<exists>m. st = StatOk m \<and> prevHandled w (filePath tg) < m)"
    by (cases st) (simp_all add: notifications_handleLocalFlag)
  moreover have "length (notifications (fst (handleLocalFlag tg st rd w))) \<le> 1"
    by (cases st) (simp_all add: notifications_handleLocalFlag)
  moreover have "prevHandled w (filePath tg) < T \<longrightarrow>
      notifications (fst (handleLocalFlag tg (StatOk T) rd w)) =
        [TriggerNotification (agent tg) (case rd of ReadOk text \<Rightarrow> trim text | ReadError \<Rightarrow> [])] \<and>
      lastHandled (snd (handleLocalFlag tg (StatOk T) rd w)) (filePath tg) = Some T \<and>
      (\<forall>T' rd'. T' \<le> T \<longrightarrow>
         handleLocalFlag tg (StatOk T') rd' (snd (handleLocalFlag tg (StatOk T) rd w)) =
           ([], snd (handleLocalFlag tg (StatOk T) rd w)))"
    by (simp add: handleLocalFlag_new handleLocalFlag_old notifications_def)
  ultimately show ?thesis by blast
qed


lemma target0: "TARGETS ! 0 = \<lparr>name = ''notify-cascade'', agent = ''Cascade'', notifyFor = ''Replit''\<rparr>"
  by (simp add: TARGETS_def)

lemma target1: "TARGETS ! Suc 0 = \<lparr>name = ''notify-replit'', agent = ''Replit'', notifyFor = ''Cascade''\<rparr>"
  by (simp add: TARGETS_def)

lemma prevHandled_initial [simp]: "prevHandled initial p = 0"
  by (simp add: prevHandled_def initial_def)

lemma trim_ping: "trim ''ping'' = ''ping''"
  by (simp add: trim_def isWhiteSpace_def)

theorem local_dispatch_iff_newer_witness:
  "prevHandled initial (filePath (TARGETS ! 0)) < 1000 \<and>
   notifications (fst (handleLocalFlag (TARGETS ! 0) (StatOk 1000) (ReadOk ''ping'') initial)) =
     [TriggerNotification ''Cascade'' ''ping''] \<and>
   handleLocalFlag (TARGETS ! 0) (StatOk 1000) (ReadOk ''ping'')
      (snd (handleLocalFlag (TARGETS ! 0) (StatOk 1000) (ReadOk ''ping'') initial)) =
     ([], snd (handleLocalFlag (TARGETS ! 0) (StatOk 1000) (ReadOk ''ping'') initial))"
proof -
  have h: "prevHandled initial (filePath (TARGETS ! 0)) < 1000" by simp
  have le: "(1000::real) \<le> 1000" by simp
  from h le
    local_dispatch_iff_newer [of "TARGETS ! 0" "StatOk 1000" "ReadOk ''ping''" initial 1000]
  show ?thesis by (simp add: target0 trim_ping)
qed

text \<open>
  The claim as it is written fails for a file whose modification time is not positive:
  at the start nothing is stored for the signal, the file exists with modification time
  \<open>0\<close>, and the check sends nothing.
\<close>

theorem local_epoch_file_counterexample:
  "lastHandled initial (filePath (TARGETS ! 0)) = None \<and>
   handleLocalFlag (TARGETS ! 0) (StatOk 0) (ReadOk ''ping'') initial = ([], initial)"
  by (simp add: handleLocalFlag_old) (simp add: initial_def)

text \<open>
  Claim C6. At the start nothing is stored in \<open>lastHandled\<close>. The first check that finds
  the file of a signal with a positive modification time stores that time and sends one
  notification, whatever the read gives. The remote channel sends nothing for the first
  fetch it sees.
\<close>

theorem first_local_file_dispatched:
  "lastHandled initial (filePath tg) = None \<and>
   (lastHandled w (filePath tg) = None \<and> 0 < m \<longrightarrow>
      fst (handleLocalFlag tg (StatOk m) rd w) =
        [SetLastHandled (filePath tg) m,
         TriggerNotification (agent tg) (case rd of ReadOk text \<Rightarrow> trim text | ReadError \<Rightarrow> [])]) \<and>
   (0 < m \<longrightarrow>
      notifications (fst (handleLocalFlag tg (StatOk m) rd initial)) =
        [TriggerNotification (agent tg) (case rd of ReadOk text \<Rightarrow> trim text | ReadError \<Rightarrow> [])]) \<and>
   notifications (fst (snd (pollTarget tg (Some r) initial))) = []"
proof -
  have "lastHandled initial (filePath tg) = None" by (simp add: initial_def)
  moreover have "lastHandled w (filePath tg) = None \<and> 0 < m \<longrightarrow>
      fst (handleLocalFlag tg (StatOk m) rd w) =
        [SetLastHandled (filePath tg) m,
         TriggerNotification (agent tg) (case rd of ReadOk text \<Rightarrow> trim text | ReadError \<Rightarrow> [])]"
    by (simp add: handleLocalFlag_new prevHandled_simp)
  moreover have "0 < m \<longrightarrow>
      notifications (fst (handleLocalFlag tg (StatOk m) rd initial)) =
        [TriggerNotification (agent tg) (case rd of ReadOk text \<Rightarrow> trim text | ReadError \<Rightarrow> [])]"
    by (simp add: handleLocalFlag_new notifications_def)
  moreover have "notifications (fst (snd (pollTarget tg (Some r) initial))) = []"
    by (simp add: pollTarget_def getSha_def initial_def falsy_def notifications_def Let_def
          split: option.splits)
  ultimately show ?thesis by blast
qed

theorem first_local_file_dispatched_witness:
  "lastHandled initial (filePath (TARGETS ! 0)) = None \<and> (0::real) < 1000 \<and>
   fst (handleLocalFlag (TARGETS ! 0) (StatOk 1000) (ReadOk ''ping'') initial) =
     [SetLastHandled ''.handoff/notify-cascade'' 1000, TriggerNotification ''Cascade'' ''ping''] \<and>
   notifications (fst (snd (pollTarget (TARGETS ! 0) (Some \<lparr>sha = Some ''abc123'', content = ''ping''\<rparr>) initial))) = []"
proof -
  have a: "lastHandled initial (filePath (TARGETS ! 0)) = None" by (simp add: initial_def)
  have b: "(0::real) < 1000" by simp
  from a b
    first_local_file_dispatched [of "TARGETS ! 0" initial 1000 "ReadOk ''ping''"
      "\<lparr>sha = Some ''abc123'', content = ''ping''\<rparr>"]
  show ?thesis
    by (simp add: target0 trim_ping filePath_def path_join_def LOCAL_FLAG_DIR_def)
qed

lemma handleLocalFlag_frame:
  "q \<noteq> filePath tg \<Longrightarrow>
   lastHandled (snd (handleLocalFlag tg st rd w)) q = lastHandled w q"
  by (cases st) (simp_all add: handleLocalFlag_def Let_def)

lemma handleLocalFlag_cong_state:
  "lastHandled w1 (filePath tg) = lastHandled w2 (filePath tg) \<Longrightarrow>
   fst (handleLocalFlag tg st rd w1) = fst (handleLocalFlag tg st rd w2)"
  by (cases st) (simp_all add: handleLocalFlag_def Let_def prevHandled_def)

lemma filePath_targets: "filePath (TARGETS ! 1) \<noteq> filePath (TARGETS ! 0)"
  by (simp add: target0 target1 filePath_def path_join_def)

lemma localPollTick_checks:
  "fst (localPollTick st rd w) =
     fst (handleLocalFlag (TARGETS ! 0) (st (filePath (TARGETS ! 0))) (rd (filePath (TARGETS ! 0))) w) @
     fst (handleLocalFlag (TARGETS ! 1) (st (filePath (TARGETS ! 1))) (rd (filePath (TARGETS ! 1))) w)"
proof -
  let ?t0 = "TARGETS ! 0" and ?t1 = "TARGETS ! 1"
  let ?w' = "snd (handleLocalFlag ?t0 (st (filePath ?t0)) (rd (filePath ?t0)) w)"
  have T: "TARGETS = [?t0, ?t1]" by (simp add: TARGETS_def)
  have "lastHandled ?w' (filePath ?t1) = lastHandled w (filePath ?t1)"
    using filePath_targets by (intro handleLocalFlag_frame) simp
  then have "fst (handleLocalFlag ?t1 (st (filePath ?t1)) (rd (filePath ?t1)) ?w') =
      fst (handleLocalFlag ?t1 (st (filePath ?t1)) (rd (filePath ?t1)) w)"
    by (rule handleLocalFlag_cong_state)
  moreover have "fst (localPollTick st rd w) =
      fst (handleLocalFlag ?t0 (st (filePath ?t0)) (rd (filePath ?t0)) w) @
      fst (handleLocalFlag ?t1 (st (filePath ?t1)) (rd (filePath ?t1)) ?w')"
    unfolding localPollTick_def by (subst T) (simp add: split_beta)
  ultimately show ?thesis by simp
qed

text \<open>
  Claim C7, as amended. A check whose \<open>fs.stat\<close> fails with \<open>ENOENT\<close> has no effect and
  leaves the state as it is. Another error of \<open>fs.stat\<close> is logged with
  \<open>console.error\<close> and leaves the state as it is. An error of \<open>fs.readFile\<close> is not
  logged: the check stores the time and sends the notification with an empty context.
  What the check of one signal does, errors included, does not change what the check of
  a signal with another path does: a tick of the scan does what the check of each target
  does on its own, one after the other.
\<close>

theorem local_errors_contained:
  "handleLocalFlag tg StatENOENT rd w = ([], w) \<and>
   handleLocalFlag tg (StatError msg) rd w = ([ConsoleError (''[local] error: '' @ msg)], w) \<and>
   (prevHandled w (filePath tg) < m \<longrightarrow>
      fst (handleLocalFlag tg (StatOk m) ReadError w) =
        [SetLastHandled (filePath tg) m, TriggerNotification (agent tg) []]) \<and>
   (filePath tg' \<noteq> filePath tg \<longrightarrow>
      fst (handleLocalFlag tg' st' rd' (snd (handleLocalFlag tg st rd w))) =
        fst (handleLocalFlag tg' st' rd' w)) \<and>
   fst (localPollTick stat read w) =
     fst (handleLocalFlag (TARGETS ! 0) (stat (filePath (TARGETS ! 0))) (read (filePath (TARGETS ! 0))) w) @
     fst (handleLocalFlag (TARGETS ! 1) (stat (filePath (TARGETS ! 1))) (read (filePath (TARGETS ! 1))) w)"
proof -
  have "filePath tg' \<noteq> filePath tg \<longrightarrow>
      fst (handleLocalFlag tg' st' rd' (snd (handleLocalFlag tg st rd w))) =
        fst (handleLocalFlag tg' st' rd' w)"
    using handleLocalFlag_frame [of "filePath tg'" tg st rd w]
      handleLocalFlag_cong_state [of "snd (handleLocalFlag tg st rd w)" tg' w st' rd']
    by blast
  moreover have "prevHandled w (filePath tg) < m \<longrightarrow>
      fst (handleLocalFlag tg (StatOk m) ReadError w) =
        [SetLastHandled (filePath tg) m, TriggerNotification (agent tg) []]"
    by (simp add: handleLocalFlag_new)
  ultimately show ?thesis
    using handleLocalFlag_enoent handleLocalFlag_error localPollTick_checks by blast
qed

theorem local_errors_contained_witness:
  "prevHandled initial (filePath (TARGETS ! 0)) < 1000 \<and>
   filePath (TARGETS ! 1) \<noteq> filePath (TARGETS ! 0) \<and>
   handleLocalFlag (TARGETS ! 0) StatENOENT ReadError initial = ([], initial) \<and>
   handleLocalFlag (TARGETS ! 0) (StatError ''EACCES: permission denied'') ReadError initial =
     ([ConsoleError ''[local] error: EACCES: permission denied''], initial) \<and>
   fst (handleLocalFlag (TARGETS ! 0) (StatOk 1000) ReadError initial) =
     [SetLastHandled ''.handoff/notify-cascade'' 1000, TriggerNotification ''Cascade'' []] \<and>
   fst (handleLocalFlag (TARGETS ! 1) (StatOk 1000) (ReadOk ''ping'')
     (snd (handleLocalFlag (TARGETS ! 0) (StatError ''EACCES: permission denied'') ReadError initial))) =
     fst (handleLocalFlag (TARGETS ! 1) (StatOk 1000) (ReadOk ''ping'') initial)"
proof -
  have a: "prevHandled initial (filePath (TARGETS ! 0)) < 1000" by simp
  from a filePath_targets
    local_errors_contained [of "TARGETS ! 0" ReadError initial "''EACCES: permission denied''"
      1000 "TARGETS ! 1" "StatOk 1000" "ReadOk ''ping''" "StatError ''EACCES: permission denied''"]
  show ?thesis
    by (simp add: target0 filePath_def path_join_def LOCAL_FLAG_DIR_def)
qed

text \<open>
  The claim as it is written says that an error of the read is logged. The check of a
  new file whose read fails has two effects, and none of them is a line on the console.
\<close>

theorem local_read_error_counterexample:
  "handleLocalFlag (TARGETS ! 0) (StatOk 1000) ReadError initial =
     ([SetLastHandled ''.handoff/notify-cascade'' 1000, TriggerNotification ''Cascade'' []],
      initial\<lparr>lastHandled := (lastHandled initial)(''.handoff/notify-cascade'' \<mapsto> 1000)\<rparr>)"
  by (simp add: handleLocalFlag_new target0 filePath_def path_join_def LOCAL_FLAG_DIR_def)

subsection \<open>Trimming\<close>

lemma trim_Nil [simp]: "trim [] = []"
  by (simp add: trim_def)

lemma trim_last:
  "trim s \<noteq> [] \<Longrightarrow> \<not> isWhiteSpace (last (trim s))"
proof -
  assume ne: "trim s \<noteq> []"
  let ?ys = "dropWhile isWhiteSpace (rev (dropWhile isWhiteSpace s))"
  from ne have "?ys \<noteq> []" by (simp add: trim_def)
  then have "\<not> isWhiteSpace (hd ?ys)" by (rule hd_dropWhile)
  moreover from \<open>?ys \<noteq> []\<close> have "last (trim s) = hd ?ys"
    by (simp add: trim_def last_rev)
  ultimately show ?thesis by simp
qed

lemma trim_hd:
  "trim s \<noteq> [] \<Longrightarrow> \<not> isWhiteSpace (hd (trim s))"
proof -
  assume ne: "trim s \<noteq> []"
  let ?xs = "dropWhile isWhiteSpace s"
  have "?xs = rev (takeWhile isWhiteSpace (rev ?xs) @ dropWhile isWhiteSpace (rev ?xs))"
    by simp
  also have "\<dots> = trim s @ rev (takeWhile isWhiteSpace (rev ?xs))"
    by (simp only: rev_append trim_def)
  finally have xs: "?xs = trim s @ rev (takeWhile isWhiteSpace (rev ?xs))" .
  with ne have "?xs \<noteq> []" by (metis append_is_Nil_conv)
  then have "\<not> isWhiteSpace (hd ?xs)" by (rule hd_dropWhile)
  moreover from xs ne have "hd ?xs = hd (trim s)"
    by (metis hd_append2)
  ultimately show ?thesis by simp
qed

subsection \<open>The remote fetch\<close>

lemma fetch_failed_iff: "fetchGitHubFile decode resp = None \<longleftrightarrow> failed resp"
  by (cases resp rule: failed.cases) (simp_all add: fetchGitHubFile_def)

lemma fetch_ok:
  "fetchGitHubFile decode (Response True (JsonData s c)) =
     Some \<lparr>sha = s,
           content = (case c of Some b \<Rightarrow> if b \<noteq> [] then trim (decode b) else [] | None \<Rightarrow> [])\<rparr>"
  by (simp add: fetchGitHubFile_def)

lemma fetch_content_trimmed:
  assumes "fetchGitHubFile decode resp = Some r"
  shows "content r = [] \<or> (\<not> isWhiteSpace (hd (content r)) \<and> \<not> isWhiteSpace (last (content r)))"
proof (cases resp)
  case FetchRejects
  with assms show ?thesis by (simp add: fetchGitHubFile_def)
next
  case (Response ok body)
  show ?thesis
  proof (cases body)
    case JsonRejects
    with Response assms show ?thesis by (simp add: fetchGitHubFile_def split: if_splits)
  next
    case (JsonData s c)
    with Response assms have "content r = (case c of Some b \<Rightarrow> if b \<noteq> [] then trim (decode b) else [] | None \<Rightarrow> [])"
      by (auto simp add: fetchGitHubFile_def split: if_splits)
    then show ?thesis
      using trim_hd trim_last by (auto split: option.splits if_splits)
  qed
qed

text \<open>
  Claim C10. \<open>fetchGitHubFile\<close> returns \<open>null\<close> exactly for the failed responses (the
  fetch rejects, the status is not a success, or reading the body throws); for every
  other response it returns the fingerprint of the body and a string. A body with no
  content gives the empty string, for which the prompt has no context clause. A content
  that is not empty is decoded and trimmed, and so is every content when decoding the
  empty string gives the empty string. The string returned has no white space at either
  end.
\<close>

theorem fetchGitHubFile_total:
  "(fetchGitHubFile decode resp = None \<longleftrightarrow> failed resp) \<and>
   (\<not> failed resp \<longrightarrow>
      (\<exists>s c. resp = Response True (JsonData s c) \<and>
         fetchGitHubFile decode resp =
           Some \<lparr>sha = s,
                 content = (case c of Some blob \<Rightarrow> if blob \<noteq> [] then trim (decode blob) else []
                            | None \<Rightarrow> [])\<rparr>)) \<and>
   fetchGitHubFile decode (Response True (JsonData fp None)) = Some \<lparr>sha = fp, content = []\<rparr> \<and>
   prompt fromAgent (content (the (fetchGitHubFile decode (Response True (JsonData fp None))))) =
     fromAgent @ '' has a message for you. Check .ai/dialogue.json and .handoff/collab.json, then respond to continue the conversation.'' \<and>
   (blob \<noteq> [] \<longrightarrow>
      fetchGitHubFile decode (Response True (JsonData fp (Some blob))) =
        Some \<lparr>sha = fp, content = trim (decode blob)\<rparr>) \<and>
   (decode [] = [] \<longrightarrow>
      fetchGitHubFile decode (Response True (JsonData fp (Some blob))) =
        Some \<lparr>sha = fp, content = trim (decode blob)\<rparr>) \<and>
   (\<forall>r. fetchGitHubFile decode resp = Some r \<longrightarrow>
      content r = [] \<or>
      (\<not> isWhiteSpace (hd (content r)) \<and> \<not> isWhiteSpace (last (content r))))"
proof -
  have c1: "fetchGitHubFile decode resp = None \<longleftrightarrow> failed resp"
    by (rule fetch_failed_iff)
  have c2: "\<not> failed resp \<longrightarrow>
      (\<exists>s c. resp = Response True (JsonData s c) \<and>
         fetchGitHubFile decode resp =
           Some \<lparr>sha = s,
                 content = (case c of Some blob \<Rightarrow> if blob \<noteq> [] then trim (decode blob) else []
                            | None \<Rightarrow> [])\<rparr>)"
    by (cases resp rule: failed.cases) (simp_all add: fetch_ok)
  have c3: "fetchGitHubFile decode (Response True (JsonData fp None)) = Some \<lparr>sha = fp, content = []\<rparr>"
    by (simp add: fetch_ok)
  have c4: "prompt fromAgent (content (the (fetchGitHubFile decode (Response True (JsonData fp None))))) =
     fromAgent @ '' has a message for you. Check .ai/dialogue.json and .handoff/collab.json, then respond to continue the conversation.''"
    by (simp add: fetch_ok prompt_empty)
  have c5: "blob \<noteq> [] \<longrightarrow>
      fetchGitHubFile decode (Response True (JsonData fp (Some blob))) =
        Some \<lparr>sha = fp, content = trim (decode blob)\<rparr>"
    by (simp add: fetch_ok)
  have c6: "decode [] = [] \<longrightarrow>
      fetchGitHubFile decode (Response True (JsonData fp (Some blob))) =
        Some \<lparr>sha = fp, content = trim (decode blob)\<rparr>"
    by (simp add: fetch_ok)
  have c7: "\<forall>r. fetchGitHubFile decode resp = Some r \<longrightarrow>
      content r = [] \<or>
      (\<not> isWhiteSpace (hd (content r)) \<and> \<not> isWhiteSpace (last (content r)))"
    using fetch_content_trimmed by blast
  show ?thesis
    using c1 c2 c3 c4 c5 c6 c7 by - (intro conjI; assumption)
qed


lemma trim_pong: "trim (''pong'' @ [CHR 0x0A]) = ''pong''"
  by (simp add: trim_def isWhiteSpace_def)

theorem fetchGitHubFile_total_witness:
  "\<not> failed (Response True (JsonData (Some ''def456'') (Some ''cG9uZwo=''))) \<and>
   ''cG9uZwo='' \<noteq> [] \<and>
   fetchGitHubFile (\<lambda>c. if c = ''cG9uZwo='' then ''pong'' @ [CHR 0x0A] else [])
       (Response True (JsonData (Some ''def456'') (Some ''cG9uZwo=''))) =
     Some \<lparr>sha = Some ''def456'', content = ''pong''\<rparr> \<and>
   fetchGitHubFile (\<lambda>c. if c = ''cG9uZwo='' then ''pong'' @ [CHR 0x0A] else [])
       (Response True (JsonData (Some ''def456'') None)) =
     Some \<lparr>sha = Some ''def456'', content = []\<rparr>"
proof -
  have a: "\<not> failed (Response True (JsonData (Some ''def456'') (Some ''cG9uZwo='')))" by simp
  have b: "''cG9uZwo='' \<noteq> []" by simp
  from a b
    fetchGitHubFile_total [of "\<lambda>c. if c = ''cG9uZwo='' then ''pong'' @ [CHR 0x0A] else []"
      "Response True (JsonData (Some ''def456'') (Some ''cG9uZwo=''))" "Some ''def456''" "''x''"
      "''cG9uZwo=''"]
  show ?thesis by (simp add: trim_pong [simplified])
qed

subsection \<open>The remote poll\<close>

lemma pollTarget_None: "pollTarget tg None w = (Returned, [], w)"
  by (simp add: pollTarget_def)

lemma pollTarget_same:
  "getSha w (name tg) = sha r \<Longrightarrow> pollTarget tg (Some r) w = (Returned, [], w)"
  by (simp add: pollTarget_def)

lemma getSha_update [simp]:
  "getSha (w\<lparr>lastGitHubSha := (lastGitHubSha w)(k \<mapsto> v)\<rparr>) k' =
     (if k' = k then v else getSha w k')"
  by (simp add: getSha_def)

lemma pollTarget_baseline:
  "falsy (getSha w (name tg)) \<Longrightarrow> getSha w (name tg) \<noteq> Some s \<Longrightarrow> sha r = Some s \<Longrightarrow>
   pollTarget tg (Some r) w =
     (Returned,
      [SetLastGitHubSha (name tg) (Some s),
       ConsoleLog (''[github] tracking '' @ name tg @ '' (sha: '' @ take 7 s @ '')'')],
      w\<lparr>lastGitHubSha := (lastGitHubSha w)(name tg \<mapsto> Some s)\<rparr>)"
  by (simp add: pollTarget_def Let_def)


lemma pollTarget_getSha:
  "getSha (snd (snd (pollTarget tg result w))) k =
     (case result of
        Some r \<Rightarrow> if k = name tg then sha r else getSha w k
      | None \<Rightarrow> getSha w k)"
  by (cases result) (auto simp add: pollTarget_def Let_def split: option.splits)

lemma pollTarget_first_effect:
  "getSha w (name tg) \<noteq> sha r \<Longrightarrow>
   \<exists>rest. fst (snd (pollTarget tg (Some r) w)) = SetLastGitHubSha (name tg) (sha r) # rest"
  by (simp add: pollTarget_def Let_def split: option.splits)

lemma pollTarget_notifications_le:
  "length (notifications (fst (snd (pollTarget tg result w)))) \<le> 1"
  by (cases result) (simp_all add: pollTarget_def Let_def notifications_def split: option.splits)

lemma pollTicks_append:
  "pollTicks tg decode (xs @ ys) w =
     (fst (pollTicks tg decode xs w) @ fst (pollTicks tg decode ys (snd (pollTicks tg decode xs w))),
      snd (pollTicks tg decode ys (snd (pollTicks tg decode xs w))))"
  by (induction xs arbitrary: w) (simp_all add: split_beta)

lemma pollTicks_failed:
  "\<forall>resp\<in>set fails. failed resp \<Longrightarrow> pollTicks tg decode fails w = ([], w)"
  by (induction fails arbitrary: w) (simp_all add: fetch_failed_iff [THEN iffD2] pollTarget_None)



lemma pollTargets_failed:
  "\<forall>tg\<in>set tgs. failed (net (name tg)) \<Longrightarrow> pollTargets tgs decode net w = (Returned, [], w)"
  by (induction tgs arbitrary: w) (simp_all add: fetch_failed_iff [THEN iffD2] pollTarget_None)

lemma pollSteps_getSha:
  "getSha (snd (pollSteps steps w)) k =
     (case lastFetched k steps of None \<Rightarrow> getSha w k | Some v \<Rightarrow> v)"
proof (induction steps arbitrary: w)
  case Nil
  then show ?case by simp
next
  case (Cons step steps)
  obtain tg result where step: "step = (tg, result)" by (cases step)
  let ?w' = "snd (snd (pollTarget tg result w))"
  have "getSha (snd (pollSteps (step # steps) w)) k = getSha (snd (pollSteps steps ?w')) k"
    by (simp add: step split_beta)
  also have "\<dots> = (case lastFetched k steps of None \<Rightarrow> getSha ?w' k | Some v \<Rightarrow> v)"
    by (rule Cons.IH)
  also have "\<dots> = (case lastFetched k (step # steps) of None \<Rightarrow> getSha w k | Some v \<Rightarrow> v)"
    by (auto simp add: step pollTarget_getSha split: option.splits)
  finally show ?case .
qed

text \<open>
  Claim C3. A failed fetch leaves the state as it is and has no effect, for one signal
  and for a whole poll in which every fetch fails. After a run of failed ticks the next
  ticks behave as they would have without the run. In particular, with no fingerprint
  recorded, the fingerprint of the first successful tick after the run is recorded as the
  baseline and no notification is sent.
\<close>

theorem failed_fetch_keeps_fingerprint:
  "(failed resp \<longrightarrow> pollTarget tg (fetchGitHubFile decode resp) w = (Returned, [], w)) \<and>
   ((\<forall>tg\<in>set TARGETS. failed (net (name tg))) \<longrightarrow> pollGitHub decode net w = (Returned, [], w)) \<and>
   ((\<forall>resp\<in>set fails. failed resp) \<longrightarrow>
      pollTicks tg decode (fails @ resps) w = pollTicks tg decode resps w) \<and>
   ((\<forall>resp\<in>set fails. failed resp) \<and> getSha w (name tg) = None \<longrightarrow>
      pollTicks tg decode (fails @ [Response True (JsonData (Some s) c)]) w =
        ([SetLastGitHubSha (name tg) (Some s),
          ConsoleLog (''[github] tracking '' @ name tg @ '' (sha: '' @ take 7 s @ '')'')],
         w\<lparr>lastGitHubSha := (lastGitHubSha w)(name tg \<mapsto> Some s)\<rparr>))"
proof -
  have c1: "failed resp \<longrightarrow> pollTarget tg (fetchGitHubFile decode resp) w = (Returned, [], w)"
    by (simp add: fetch_failed_iff [THEN iffD2] pollTarget_None)
  have c2: "(\<forall>tg\<in>set TARGETS. failed (net (name tg))) \<longrightarrow>
      pollGitHub decode net w = (Returned, [], w)"
    by (simp add: pollGitHub_def pollTargets_failed)
  have c3: "(\<forall>resp\<in>set fails. failed resp) \<longrightarrow>
      pollTicks tg decode (fails @ resps) w = pollTicks tg decode resps w"
    by (simp add: pollTicks_append pollTicks_failed)
  have c4: "(\<forall>resp\<in>set fails. failed resp) \<and> getSha w (name tg) = None \<longrightarrow>
      pollTicks tg decode (fails @ [Response True (JsonData (Some s) c)]) w =
        ([SetLastGitHubSha (name tg) (Some s),
          ConsoleLog (''[github] tracking '' @ name tg @ '' (sha: '' @ take 7 s @ '')'')],
         w\<lparr>lastGitHubSha := (lastGitHubSha w)(name tg \<mapsto> Some s)\<rparr>)"
    by (simp add: pollTicks_append pollTicks_failed fetch_ok pollTarget_baseline falsy_def)
  show ?thesis
    using c1 c2 c3 c4 by - (intro conjI; assumption)
qed


text \<open>
  Claim C9. When the fingerprint fetched differs from the one stored, the first effect of
  the poll is to store the new one, so whatever is sent is sent after it, and the state
  then holds the new one. When it is the same, the poll does nothing. In every state
  reached by polls, what is stored for a name is the fingerprint of the last successful
  fetch for that name (or what was stored at the beginning if there was none). A poll
  that sees the same fingerprint again right after does nothing, and no poll of a signal
  sends more than one notification.
\<close>

theorem remote_fingerprint_recorded_before_dispatch:
  "(getSha w (name tg) \<noteq> sha r \<longrightarrow>
      (\<exists>rest. fst (snd (pollTarget tg (Some r) w)) = SetLastGitHubSha (name tg) (sha r) # rest) \<and>
      getSha (snd (snd (pollTarget tg (Some r) w))) (name tg) = sha r) \<and>
   (getSha w (name tg) = sha r \<longrightarrow> pollTarget tg (Some r) w = (Returned, [], w)) \<and>
   getSha (snd (pollSteps steps w)) k =
     (case lastFetched k steps of None \<Rightarrow> getSha w k | Some v \<Rightarrow> v) \<and>
   (sha r' = sha r \<longrightarrow>
      pollTarget tg (Some r') (snd (snd (pollTarget tg (Some r) w))) =
        (Returned, [], snd (snd (pollTarget tg (Some r) w)))) \<and>
   length (notifications (fst (snd (pollTarget tg result w)))) \<le> 1"
proof -
  have c1: "getSha w (name tg) \<noteq> sha r \<longrightarrow>
      (\<exists>rest. fst (snd (pollTarget tg (Some r) w)) = SetLastGitHubSha (name tg) (sha r) # rest) \<and>
      getSha (snd (snd (pollTarget tg (Some r) w))) (name tg) = sha r"
    using pollTarget_first_effect by (simp add: pollTarget_getSha)
  have c2: "getSha w (name tg) = sha r \<longrightarrow> pollTarget tg (Some r) w = (Returned, [], w)"
    by (simp add: pollTarget_same)
  have c3: "getSha (snd (pollSteps steps w)) k =
     (case lastFetched k steps of None \<Rightarrow> getSha w k | Some v \<Rightarrow> v)"
    by (rule pollSteps_getSha)
  have c4: "sha r' = sha r \<longrightarrow>
      pollTarget tg (Some r') (snd (snd (pollTarget tg (Some r) w))) =
        (Returned, [], snd (snd (pollTarget tg (Some r) w)))"
    by (simp add: pollTarget_same pollTarget_getSha)
  have c5: "length (notifications (fst (snd (pollTarget tg result w)))) \<le> 1"
    by (rule pollTarget_notifications_le)
  show ?thesis
    using c1 c2 c3 c4 c5 by - (intro conjI; assumption)
qed


lemma getSha_initial [simp]: "getSha initial k = None"
  by (simp add: getSha_def initial_def)

theorem failed_fetch_keeps_fingerprint_witness:
  "failed (Response False JsonRejects) \<and> failed FetchRejects \<and>
   getSha initial (name (TARGETS ! 1)) = None \<and>
   pollTarget (TARGETS ! 1) (fetchGitHubFile (\<lambda>c. c) (Response False JsonRejects)) initial =
     (Returned, [], initial) \<and>
   pollTicks (TARGETS ! 1) (\<lambda>c. c)
     ([Response False JsonRejects, FetchRejects, Response False JsonRejects] @
      [Response True (JsonData (Some ''0123456789abcdef'') None)]) initial =
     ([SetLastGitHubSha ''notify-replit'' (Some ''0123456789abcdef''),
       ConsoleLog ''[github] tracking notify-replit (sha: 0123456)''],
      initial\<lparr>lastGitHubSha := (lastGitHubSha initial)(''notify-replit'' \<mapsto> Some ''0123456789abcdef'')\<rparr>)"
proof -
  have a: "failed (Response False JsonRejects)" by simp
  have b: "\<forall>resp\<in>set [Response False JsonRejects, FetchRejects, Response False JsonRejects]. failed resp"
    by simp
  have c: "getSha initial (name (TARGETS ! 1)) = None" by simp
  from a b c
    failed_fetch_keeps_fingerprint [of "Response False JsonRejects" "TARGETS ! 1" "\<lambda>c. c" initial
      "\<lambda>k. FetchRejects"
      "[Response False JsonRejects, FetchRejects, Response False JsonRejects]" "[]"
      "''0123456789abcdef''" None]
  show ?thesis
    by (simp add: target1 pollTarget_def fetchGitHubFile_def falsy_def Let_def)
qed



theorem remote_fingerprint_recorded_before_dispatch_witness:
  "getSha (initial\<lparr>lastGitHubSha := [''notify-replit'' \<mapsto> Some ''abc123'']\<rparr>) (name (TARGETS ! 1)) \<noteq>
     sha \<lparr>sha = Some ''def456'', content = ''pong''\<rparr> \<and>
   (\<exists>rest. fst (snd (pollTarget (TARGETS ! 1) (Some \<lparr>sha = Some ''def456'', content = ''pong''\<rparr>)
       (initial\<lparr>lastGitHubSha := [''notify-replit'' \<mapsto> Some ''abc123'']\<rparr>))) =
      SetLastGitHubSha ''notify-replit'' (Some ''def456'') # rest) \<and>
   pollTarget (TARGETS ! 1) (Some \<lparr>sha = Some ''def456'', content = ''pong''\<rparr>)
     (snd (snd (pollTarget (TARGETS ! 1) (Some \<lparr>sha = Some ''def456'', content = ''pong''\<rparr>)
       (initial\<lparr>lastGitHubSha := [''notify-replit'' \<mapsto> Some ''abc123'']\<rparr>)))) =
     (Returned, [],
      snd (snd (pollTarget (TARGETS ! 1) (Some \<lparr>sha = Some ''def456'', content = ''pong''\<rparr>)
       (initial\<lparr>lastGitHubSha := [''notify-replit'' \<mapsto> Some ''abc123'']\<rparr>))))"
proof -
  have a: "getSha (initial\<lparr>lastGitHubSha := [''notify-replit'' \<mapsto> Some ''abc123'']\<rparr>)
      (name (TARGETS ! 1)) \<noteq> sha \<lparr>sha = Some ''def456'', content = ''pong''\<rparr>"
    by (simp add: getSha_def target1)
  have b: "sha \<lparr>sha = Some ''def456'', content = ''pong''\<rparr> = sha \<lparr>sha = Some ''def456'', content = ''pong''\<rparr>"
    by simp
  from a b
    remote_fingerprint_recorded_before_dispatch
      [of "initial\<lparr>lastGitHubSha := [''notify-replit'' \<mapsto> Some ''abc123'']\<rparr>" "TARGETS ! 1"
        "\<lparr>sha = Some ''def456'', content = ''pong''\<rparr>" "[]" "''notify-replit''"
        "\<lparr>sha = Some ''def456'', content = ''pong''\<rparr>" None]
  show ?thesis
    by (simp add: target1 pollTarget_def getSha_def falsy_def Let_def initial_def)
qed

subsection \<open>Interleaved local checks\<close>

lemma effectsOf_Nil [simp]: "effectsOf i [] = []"
  by (simp add: effectsOf_def)

lemma effectsOf_Cons [simp]:
  "effectsOf i ((j, e) # tr) = (if j = i then e # effectsOf i tr else effectsOf i tr)"
  by (simp add: effectsOf_def)

lemma effectsOf_app [simp]: "effectsOf i (xs @ ys) = effectsOf i xs @ effectsOf i ys"
  by (simp add: effectsOf_def)

lemma effectsOf_map_Pair [simp]: "effectsOf i (map (Pair j) es) = (if j = i then es else [])"
  by (induction es) auto

lemma effectsOf_unused:
  "\<forall>x\<in>set tr. fst x \<noteq> i \<Longrightarrow> effectsOf i tr = []"
  by (induction tr) (auto simp add: effectsOf_def)

lemma afterStat_cases:
  assumes "afterStat tg st w = (pc', es, w')"
  shows "(\<exists>m. st = StatOk m \<and> prevHandled w (filePath tg) < m \<and> pc' = AwaitRead \<and>
            es = [SetLastHandled (filePath tg) m] \<and>
            w' = w\<lparr>lastHandled := (lastHandled w)(filePath tg \<mapsto> m)\<rparr>) \<or>
         (pc' = Finished \<and> w' = w \<and> (es = [] \<or> (\<exists>msg. es = [ConsoleError msg])))"
  using assms
  by (cases st) (auto simp add: afterStat_def Let_def split: if_splits)

lemma prevHandled_mono:
  "prevHandled w p < m \<Longrightarrow>
   prevHandled w q \<le> prevHandled (w\<lparr>lastHandled := (lastHandled w)(p \<mapsto> m)\<rparr>) q"
  by (cases "q = p") simp_all

lemma taskOk_other:
  "j \<noteq> i \<Longrightarrow> taskOk (tr @ map (Pair i) es) j t = taskOk tr j t"
  by (cases "snd t") (auto simp add: taskOk_def)

lemma consistent_task:
  "consistent s \<Longrightarrow> i < length (tasks s) \<Longrightarrow> taskOk (trace s) i (tasks s ! i)"
  by (simp add: consistent_def)

lemma consistent_bound:
  "consistent s \<Longrightarrow> x \<in> set (trace s) \<Longrightarrow> fst x < length (tasks s)"
  by (simp add: consistent_def)

lemma consistent_le:
  "consistent s \<Longrightarrow> (i, SetLastHandled p m) \<in> set (trace s) \<Longrightarrow> m \<le> prevHandled (store s) p"
  by (simp add: consistent_def)

lemma consistent_unique:
  "consistent s \<Longrightarrow> (i, SetLastHandled p m) \<in> set (trace s) \<Longrightarrow>
   (j, SetLastHandled p m) \<in> set (trace s) \<Longrightarrow> i = j"
  unfolding consistent_def by blast

lemma consistentI:
  assumes "\<And>i. i < length (tasks s) \<Longrightarrow> taskOk (trace s) i (tasks s ! i)"
    and "\<And>x. x \<in> set (trace s) \<Longrightarrow> fst x < length (tasks s)"
    and "\<And>i p m. (i, SetLastHandled p m) \<in> set (trace s) \<Longrightarrow> m \<le> prevHandled (store s) p"
    and "\<And>i j p m. (i, SetLastHandled p m) \<in> set (trace s) \<Longrightarrow>
           (j, SetLastHandled p m) \<in> set (trace s) \<Longrightarrow> i = j"
  shows "consistent s"
  unfolding consistent_def using assms by blast

lemma consistent_start: "consistent (start w)"
  by (simp add: consistent_def start_def)

lemma consistent_Start:
  assumes "consistent s"
  shows "consistent (step (Start tg) s)"
proof (rule consistentI)
  fix i assume "i < length (tasks (step (Start tg) s))"
  then consider "i < length (tasks s)" | "i = length (tasks s)" by fastforce
  then show "taskOk (trace (step (Start tg) s)) i (tasks (step (Start tg) s) ! i)"
  proof cases
    case 1
    with assms show ?thesis by (simp add: consistent_task nth_append)
  next
    case 2
    have "effectsOf (length (tasks s)) (trace s) = []"
      using consistent_bound [OF assms] by (intro effectsOf_unused) fastforce
    with 2 show ?thesis by (simp add: taskOk_def)
  qed
next
  fix x assume "x \<in> set (trace (step (Start tg) s))"
  then show "fst x < length (tasks (step (Start tg) s))"
    using consistent_bound [OF assms, of x] by simp
next
  fix i p m assume "(i, SetLastHandled p m) \<in> set (trace (step (Start tg) s))"
  then show "m \<le> prevHandled (store (step (Start tg) s)) p"
    using consistent_le [OF assms, of i p m] by simp
next
  fix i j p m
  assume "(i, SetLastHandled p m) \<in> set (trace (step (Start tg) s))"
    and "(j, SetLastHandled p m) \<in> set (trace (step (Start tg) s))"
  then show "i = j"
    using consistent_unique [OF assms, of i p m j] by simp
qed

lemma consistent_ReadDone:
  assumes "consistent s"
  shows "consistent (step (ReadDone i rd) s)"
proof (cases "i < length (tasks s) \<and> snd (tasks s ! i) = AwaitRead")
  case False
  with assms show ?thesis by auto
next
  case True
  define tg where "tg = fst (tasks s ! i)"
  define es where "es = afterRead tg rd"
  define s' where "s' = step (ReadDone i rd) s"
  have tasks': "tasks s' = (tasks s)[i := (tg, Finished)]"
    and trace': "trace s' = trace s @ map (Pair i) es"
    and store': "store s' = store s"
    using True by (simp_all add: s'_def tg_def es_def Let_def)
  from assms True have "taskOk (trace s) i (tasks s ! i)"
    by (simp add: consistent_task)
  with True obtain m where m: "effectsOf i (trace s) = [SetLastHandled (filePath tg) m]"
    by (auto simp add: taskOk_def tg_def)
  have es: "es = [TriggerNotification (agent tg)
      (case rd of ReadOk text \<Rightarrow> trim text | ReadError \<Rightarrow> [])]"
    by (simp add: es_def afterRead_def)
  have sets: "(j, SetLastHandled p v) \<in> set (trace s') \<longleftrightarrow> (j, SetLastHandled p v) \<in> set (trace s)"
    for j p v by (auto simp add: trace' es)
  have "consistent s'"
  proof (rule consistentI)
    fix j assume j: "j < length (tasks s')"
    show "taskOk (trace s') j (tasks s' ! j)"
    proof (cases "j = i")
      case True
      with j m show ?thesis by (simp add: tasks' trace' taskOk_def es)
    next
      case False
      with j assms show ?thesis by (simp add: tasks' trace' taskOk_other consistent_task)
    qed
  next
    fix x assume "x \<in> set (trace s')"
    then show "fst x < length (tasks s')"
      using consistent_bound [OF assms, of x] True by (auto simp add: tasks' trace')
  next
    fix j p v assume "(j, SetLastHandled p v) \<in> set (trace s')"
    then show "v \<le> prevHandled (store s') p"
      using consistent_le [OF assms, of j p v] by (simp add: sets store')
  next
    fix j k p v
    assume "(j, SetLastHandled p v) \<in> set (trace s')" and "(k, SetLastHandled p v) \<in> set (trace s')"
    then show "j = k"
      using consistent_unique [OF assms, of j p v k] by (simp add: sets)
  qed
  then show ?thesis by (simp add: s'_def)
qed

lemma consistent_StatDone:
  assumes "consistent s"
  shows "consistent (step (StatDone i st) s)"
proof (cases "i < length (tasks s) \<and> snd (tasks s ! i) = AwaitStat")
  case False
  with assms show ?thesis by auto
next
  case True
  define tg where "tg = fst (tasks s ! i)"
  define s' where "s' = step (StatDone i st) s"
  obtain pc' es w' where a: "afterStat tg st (store s) = (pc', es, w')"
    by (cases "afterStat tg st (store s)")
  have tasks': "tasks s' = (tasks s)[i := (tg, pc')]"
    and trace': "trace s' = trace s @ map (Pair i) es"
    and store': "store s' = w'"
    using True a by (simp_all add: s'_def tg_def Let_def)
  from assms True have "taskOk (trace s) i (tasks s ! i)"
    by (simp add: consistent_task)
  with True have none: "effectsOf i (trace s) = []"
    by (simp add: taskOk_def)
  have others: "taskOk (trace s') j (tasks s' ! j)" if "j < length (tasks s')" "j \<noteq> i" for j
    using that assms by (simp add: tasks' trace' taskOk_other consistent_task)
  have bound: "fst x < length (tasks s')" if "x \<in> set (trace s')" for x
    using that consistent_bound [OF assms, of x] True by (auto simp add: tasks' trace')
  from afterStat_cases [OF a] have "consistent s'"
  proof
    assume "\<exists>m. st = StatOk m \<and> prevHandled (store s) (filePath tg) < m \<and> pc' = AwaitRead \<and>
            es = [SetLastHandled (filePath tg) m] \<and>
            w' = (store s)\<lparr>lastHandled := (lastHandled (store s))(filePath tg \<mapsto> m)\<rparr>"
    then obtain m where m: "prevHandled (store s) (filePath tg) < m" and pc': "pc' = AwaitRead"
      and es: "es = [SetLastHandled (filePath tg) m]"
      and w': "w' = (store s)\<lparr>lastHandled := (lastHandled (store s))(filePath tg \<mapsto> m)\<rparr>"
      by blast
    have sets: "(j, SetLastHandled p v) \<in> set (trace s') \<longleftrightarrow>
        (j, SetLastHandled p v) \<in> set (trace s) \<or> (j = i \<and> p = filePath tg \<and> v = m)"
      for j p v by (auto simp add: trace' es)
    have old: "v \<le> prevHandled (store s) p" if "(j, SetLastHandled p v) \<in> set (trace s)" for j p v
      using that consistent_le [OF assms] by blast
    show ?thesis
    proof (rule consistentI)
      fix j assume j: "j < length (tasks s')"
      show "taskOk (trace s') j (tasks s' ! j)"
      proof (cases "j = i")
        case True
        with j none show ?thesis by (simp add: tasks' trace' taskOk_def es pc')
      next
        case False
        with j show ?thesis by (rule others)
      qed
    next
      fix x assume "x \<in> set (trace s')"
      then show "fst x < length (tasks s')" by (rule bound)
    next
      fix j p v assume "(j, SetLastHandled p v) \<in> set (trace s')"
      then consider "(j, SetLastHandled p v) \<in> set (trace s)" | "p = filePath tg" "v = m"
        using sets by blast
      then show "v \<le> prevHandled (store s') p"
      proof cases
        case 1
        then have "v \<le> prevHandled (store s) p" by (rule old)
        also have "\<dots> \<le> prevHandled (store s') p"
          unfolding store' w' using m by (rule prevHandled_mono)
        finally show ?thesis .
      next
        case 2
        then show ?thesis by (simp add: store' w')
      qed
    next
      fix j k p v
      assume j: "(j, SetLastHandled p v) \<in> set (trace s')"
        and k: "(k, SetLastHandled p v) \<in> set (trace s')"
      have new: "\<not> ((l, SetLastHandled (filePath tg) m) \<in> set (trace s))" for l
        using old [of l "filePath tg" m] m by auto
      from j k sets new show "j = k"
        using consistent_unique [OF assms, of j p v k] by blast
    qed
  next
    assume f: "pc' = Finished \<and> w' = store s \<and> (es = [] \<or> (\<exists>msg. es = [ConsoleError msg]))"
    then have sets: "(j, SetLastHandled p v) \<in> set (trace s') \<longleftrightarrow>
        (j, SetLastHandled p v) \<in> set (trace s)"
      for j p v by (auto simp add: trace')
    show ?thesis
    proof (rule consistentI)
      fix j assume j: "j < length (tasks s')"
      show "taskOk (trace s') j (tasks s' ! j)"
      proof (cases "j = i")
        case True
        with j none f show ?thesis by (auto simp add: tasks' trace' taskOk_def)
      next
        case False
        with j show ?thesis by (rule others)
      qed
    next
      fix x assume "x \<in> set (trace s')"
      then show "fst x < length (tasks s')" by (rule bound)
    next
      fix j p v assume "(j, SetLastHandled p v) \<in> set (trace s')"
      then show "v \<le> prevHandled (store s') p"
        using consistent_le [OF assms, of j p v] f by (simp add: sets store')
    next
      fix j k p v
      assume "(j, SetLastHandled p v) \<in> set (trace s')" and "(k, SetLastHandled p v) \<in> set (trace s')"
      then show "j = k"
        using consistent_unique [OF assms, of j p v k] by (simp add: sets)
    qed
  qed
  then show ?thesis by (simp add: s'_def)
qed

lemma consistent_step: "consistent s \<Longrightarrow> consistent (step mv s)"
  by (cases mv) (simp_all only: consistent_Start consistent_StatDone consistent_ReadDone)

lemma consistent_run: "consistent s \<Longrightarrow> consistent (run moves s)"
  unfolding run_def by (induction moves arbitrary: s) (simp_all add: consistent_step)


lemma run_snoc: "run (moves @ [mv]) s = step mv (run moves s)"
  by (simp add: run_def)

lemma step_new_write:
  assumes "(i, SetLastHandled p m) \<in> set (trace (step mv s))"
  shows "(i, SetLastHandled p m) \<in> set (trace s) \<or> mv = StatDone i (StatOk m)"
proof (cases mv)
  case (Start tg)
  with assms show ?thesis by simp
next
  case (StatDone j st)
  show ?thesis
  proof (cases "j < length (tasks s) \<and> snd (tasks s ! j) = AwaitStat")
    case False
    with assms StatDone show ?thesis by auto
  next
    case True
    obtain pc' es w' where a: "afterStat (fst (tasks s ! j)) st (store s) = (pc', es, w')"
      by (cases "afterStat (fst (tasks s ! j)) st (store s)")
    with True StatDone assms
    have "(i, SetLastHandled p m) \<in> set (trace s) \<or> (i = j \<and> SetLastHandled p m \<in> set es)"
      by (auto simp add: Let_def)
    moreover have "st = StatOk m" if "SetLastHandled p m \<in> set es"
      using afterStat_cases [OF a] that by auto
    ultimately show ?thesis using StatDone by blast
  qed
next
  case (ReadDone j rd)
  with assms show ?thesis by (auto simp add: Let_def afterRead_def split: if_splits)
qed

lemma run_write_observed:
  "(i, SetLastHandled p m) \<in> set (trace (run moves (start w))) \<Longrightarrow>
   StatDone i (StatOk m) \<in> set moves"
proof (induction moves rule: rev_induct)
  case Nil
  then show ?case by (simp add: run_def start_def)
next
  case (snoc mv moves)
  from snoc.prems have "(i, SetLastHandled p m) \<in> set (trace (step mv (run moves (start w))))"
    by (simp add: run_snoc)
  then have "(i, SetLastHandled p m) \<in> set (trace (run moves (start w))) \<or> mv = StatDone i (StatOk m)"
    by (rule step_new_write)
  with snoc.IH show ?case by auto
qed

lemma run_dispatching_task:
  assumes "notifications (effectsOf i (trace (run moves (start w)))) \<noteq> []"
  shows "i < length (tasks (run moves (start w))) \<and>
    (\<exists>m c. effectsOf i (trace (run moves (start w))) =
       [SetLastHandled (filePath (fst (tasks (run moves (start w)) ! i))) m,
        TriggerNotification (agent (fst (tasks (run moves (start w)) ! i))) c])"
proof -
  let ?s = "run moves (start w)"
  have c: "consistent ?s" by (simp add: consistent_run consistent_start)
  have i: "i < length (tasks ?s)"
  proof (rule ccontr)
    assume "\<not> i < length (tasks ?s)"
    then have "effectsOf i (trace ?s) = []"
      using consistent_bound [OF c] by (intro effectsOf_unused) fastforce
    with assms show False by (simp add: notifications_def)
  qed
  with c have "taskOk (trace ?s) i (tasks ?s ! i)" by (rule consistent_task)
  with assms have "\<exists>m c. effectsOf i (trace ?s) =
       [SetLastHandled (filePath (fst (tasks ?s ! i))) m,
        TriggerNotification (agent (fst (tasks ?s ! i))) c]"
    by (cases "snd (tasks ?s ! i)") (auto simp add: taskOk_def notifications_def)
  with i show ?thesis by blast
qed

lemma run_one_check:
  "run [Start tg, StatDone 0 st, ReadDone 0 rd] (start w) =
     \<lparr>store = snd (handleLocalFlag tg st rd w), tasks = [(tg, Finished)],
      trace = map (Pair 0) (fst (handleLocalFlag tg st rd w))\<rparr>"
  by (cases st)
     (simp_all add: run_def start_def afterStat_def afterRead_def handleLocalFlag_def Let_def)

text \<open>
  Claim C4. Local checks are started and resumed in any order, from any state of the
  maps. A check that sends a notification has exactly two effects: it writes a
  modification time to \<open>lastHandled\<close> for the path of its signal, and after that it
  sends the notification. The time it writes is the one its \<open>fs.stat\<close> answered; from
  the write on, the time stored for the path is at least that time; and no other check
  writes the same time for the same path. So two checks that see the same modification
  time of a file never both send a notification. A check that runs alone is
  \<open>handleLocalFlag\<close>.
\<close>

theorem local_no_double_dispatch:
  "(notifications (effectsOf i (trace (run moves (start w)))) \<noteq> [] \<longrightarrow>
      i < length (tasks (run moves (start w))) \<and>
      (\<exists>m c. effectsOf i (trace (run moves (start w))) =
         [SetLastHandled (filePath (fst (tasks (run moves (start w)) ! i))) m,
          TriggerNotification (agent (fst (tasks (run moves (start w)) ! i))) c])) \<and>
   ((i, SetLastHandled p m) \<in> set (trace (run moves (start w))) \<longrightarrow>
      StatDone i (StatOk m) \<in> set moves \<and>
      m \<le> prevHandled (store (run moves (start w))) p \<and>
      (\<forall>j. (j, SetLastHandled p m) \<in> set (trace (run moves (start w))) \<longrightarrow> j = i)) \<and>
   run [Start tg, StatDone 0 st, ReadDone 0 rd] (start w) =
     \<lparr>store = snd (handleLocalFlag tg st rd w), tasks = [(tg, Finished)],
      trace = map (Pair 0) (fst (handleLocalFlag tg st rd w))\<rparr>"
proof -
  let ?s = "run moves (start w)"
  have c: "consistent ?s" by (simp add: consistent_run consistent_start)
  have c1: "notifications (effectsOf i (trace ?s)) \<noteq> [] \<longrightarrow>
      i < length (tasks ?s) \<and>
      (\<exists>m c. effectsOf i (trace ?s) =
         [SetLastHandled (filePath (fst (tasks ?s ! i))) m,
          TriggerNotification (agent (fst (tasks ?s ! i))) c])"
    using run_dispatching_task by blast
  have c2: "(i, SetLastHandled p m) \<in> set (trace ?s) \<longrightarrow>
      StatDone i (StatOk m) \<in> set moves \<and>
      m \<le> prevHandled (store ?s) p \<and>
      (\<forall>j. (j, SetLastHandled p m) \<in> set (trace ?s) \<longrightarrow> j = i)"
    using run_write_observed consistent_le [OF c] consistent_unique [OF c] by blast
  show ?thesis
    using c1 c2 run_one_check by - (intro conjI; assumption)
qed


theorem local_no_double_dispatch_witness:
  "trace (run [Start (TARGETS ! 0), Start (TARGETS ! 0), StatDone 0 (StatOk 1000),
               StatDone 1 (StatOk 1000), ReadDone 1 (ReadOk ''pong''),
               ReadDone 0 (ReadOk ''ping'')] (start initial)) =
     [(0, SetLastHandled ''.handoff/notify-cascade'' 1000),
      (0, TriggerNotification ''Cascade'' ''ping'')] \<and>
   notifications (effectsOf 0 (trace (run [Start (TARGETS ! 0), Start (TARGETS ! 0),
               StatDone 0 (StatOk 1000), StatDone 1 (StatOk 1000), ReadDone 1 (ReadOk ''pong''),
               ReadDone 0 (ReadOk ''ping'')] (start initial)))) \<noteq> [] \<and>
   notifications (effectsOf 1 (trace (run [Start (TARGETS ! 0), Start (TARGETS ! 0),
               StatDone 0 (StatOk 1000), StatDone 1 (StatOk 1000), ReadDone 1 (ReadOk ''pong''),
               ReadDone 0 (ReadOk ''ping'')] (start initial)))) = [] \<and>
   (1000::real) \<le> prevHandled (store (run [Start (TARGETS ! 0), Start (TARGETS ! 0),
               StatDone 0 (StatOk 1000), StatDone 1 (StatOk 1000), ReadDone 1 (ReadOk ''pong''),
               ReadDone 0 (ReadOk ''ping'')] (start initial))) ''.handoff/notify-cascade''"
proof -
  let ?moves = "[Start (TARGETS ! 0), Start (TARGETS ! 0), StatDone 0 (StatOk 1000),
               StatDone 1 (StatOk 1000), ReadDone 1 (ReadOk ''pong''),
               ReadDone 0 (ReadOk ''ping'')]"
  have tr: "trace (run ?moves (start initial)) =
     [(0, SetLastHandled ''.handoff/notify-cascade'' 1000),
      (0, TriggerNotification ''Cascade'' ''ping'')]"
    by (simp add: run_def start_def afterStat_def afterRead_def Let_def target0 filePath_def
          path_join_def LOCAL_FLAG_DIR_def trim_ping prevHandled_def initial_def)
  have a: "notifications (effectsOf 0 (trace (run ?moves (start initial)))) \<noteq> []"
    unfolding tr by (simp add: notifications_def)
  have b: "(0, SetLastHandled ''.handoff/notify-cascade'' 1000) \<in> set (trace (run ?moves (start initial)))"
    unfolding tr by simp
  have c: "notifications (effectsOf 1 (trace (run ?moves (start initial)))) = []"
    unfolding tr by (simp add: notifications_def)
  from a b
    local_no_double_dispatch [of 0 ?moves initial "''.handoff/notify-cascade''" 1000
      "TARGETS ! 0" "StatOk 1000" "ReadOk ''ping''"]
  have "(1000::real) \<le> prevHandled (store (run ?moves (start initial))) ''.handoff/notify-cascade''"
    by blast
  with tr a c show ?thesis by blast
qed

subsection \<open>The debounce timer\<close>

lemma names_inj:
  "a \<in> set TARGETS \<Longrightarrow> b \<in> set TARGETS \<Longrightarrow> name a = name b \<Longrightarrow> a = b"
  by (auto simp add: TARGETS_def)

lemma find_target:
  "tg \<in> set TARGETS \<Longrightarrow> find (\<lambda>t. name t = name tg) TARGETS = Some tg"
  by (auto simp add: TARGETS_def)

lemma find_in_targets:
  "find (\<lambda>t. name t = f) TARGETS = Some tg \<Longrightarrow> tg \<in> set TARGETS \<and> name tg = f"
  by (auto simp add: find_Some_iff)

lemma name_target: "tg \<in> set TARGETS \<Longrightarrow> name tg \<noteq> []"
  by (auto simp add: TARGETS_def)

lemma wellFormed_boot: "wellFormed boot"
  by (simp add: wellFormed_def boot_def)

lemma wellFormedD:
  assumes "wellFormed lp" "p \<in> set (pending lp)"
  shows "arg p \<in> set TARGETS" "timers lp (name (arg p)) = Some (handle p)"
    "handle p < nextHandle lp"
  using assms by (auto simp add: wellFormed_def)

lemma wellFormed_timer:
  "wellFormed lp \<Longrightarrow> timers lp k = Some h \<Longrightarrow>
   \<exists>p\<in>set (pending lp). handle p = h \<and> name (arg p) = k"
  by (auto simp add: wellFormed_def)

lemma wellFormed_handle_inj:
  "wellFormed lp \<Longrightarrow> p \<in> set (pending lp) \<Longrightarrow> q \<in> set (pending lp) \<Longrightarrow>
   handle p = handle q \<Longrightarrow> p = q"
  by (auto simp add: wellFormed_def distinct_map inj_on_def)


lemma wellFormedI:
  assumes "\<And>p. p \<in> set (pending lp) \<Longrightarrow> arg p \<in> set TARGETS"
    and "\<And>p. p \<in> set (pending lp) \<Longrightarrow> timers lp (name (arg p)) = Some (handle p)"
    and "\<And>p. p \<in> set (pending lp) \<Longrightarrow> handle p < nextHandle lp"
    and "\<And>k h. timers lp k = Some h \<Longrightarrow> \<exists>p\<in>set (pending lp). handle p = h \<and> name (arg p) = k"
    and "distinct (map handle (pending lp))"
  shows "wellFormed lp"
  unfolding wellFormed_def using assms by blast

lemma wellFormed_distinct: "wellFormed lp \<Longrightarrow> distinct (map handle (pending lp))"
  by (simp add: wellFormed_def)

lemma debounce_fields:
  "timers (debounceLocalHandle now tg lp) = (timers lp)(name tg \<mapsto> nextHandle lp)"
  "pending (debounceLocalHandle now tg lp) =
     kept tg lp @ [\<lparr>handle = nextHandle lp, due = now + debounceMs, arg = tg\<rparr>]"
  "nextHandle (debounceLocalHandle now tg lp) = nextHandle lp + 1"
  "procs (debounceLocalHandle now tg lp) = procs lp"
  by (simp_all add: debounceLocalHandle_def kept_def Let_def)

lemma kept_subset: "set (kept tg lp) \<subseteq> set (pending lp)"
  by (auto simp add: kept_def clearTimeout_def split: option.splits)

lemma kept_other_name:
  assumes "wellFormed lp" "p \<in> set (kept tg lp)"
  shows "name (arg p) \<noteq> name tg"
proof
  assume eq: "name (arg p) = name tg"
  from assms(2) kept_subset have p: "p \<in> set (pending lp)" by blast
  with assms(1) eq have "timers lp (name tg) = Some (handle p)"
    using wellFormedD(2) by fastforce
  with assms(2) show False by (simp add: kept_def clearTimeout_def)
qed

lemma kept_name:
  assumes "wellFormed lp" "p \<in> set (pending lp)" "name (arg p) \<noteq> name tg"
  shows "p \<in> set (kept tg lp)"
proof (cases "timers lp (name tg)")
  case None
  with assms(2) show ?thesis by (simp add: kept_def)
next
  case (Some h)
  with assms(1) obtain q where q: "q \<in> set (pending lp)" "handle q = h" "name (arg q) = name tg"
    using wellFormed_timer by blast
  have "handle p \<noteq> h"
  proof
    assume "handle p = h"
    with q assms(1,2) have "p = q" using wellFormed_handle_inj by blast
    with q assms(3) show False by simp
  qed
  with Some assms(2) show ?thesis by (simp add: kept_def clearTimeout_def)
qed

lemma kept_distinct: "wellFormed lp \<Longrightarrow> distinct (map handle (kept tg lp))"
  by (auto simp add: kept_def clearTimeout_def wellFormed_distinct distinct_map_filter
      split: option.splits)

lemma wellFormed_debounce:
  assumes wf: "wellFormed lp" and tg: "tg \<in> set TARGETS"
  shows "wellFormed (debounceLocalHandle now tg lp)"
proof (rule wellFormedI)
  let ?lp' = "debounceLocalHandle now tg lp"
  let ?new = "\<lparr>handle = nextHandle lp, due = now + debounceMs, arg = tg\<rparr>"
  have pend: "set (pending ?lp') = set (kept tg lp) \<union> {?new}"
    by (simp add: debounce_fields)
  {
    fix p assume "p \<in> set (pending ?lp')"
    then consider "p \<in> set (kept tg lp)" | "p = ?new" using pend by auto
    note this
  } note cases = this
  show "arg p \<in> set TARGETS" if "p \<in> set (pending ?lp')" for p
    using cases [OF that]
  proof cases
    case 1
    then show ?thesis using kept_subset wellFormedD(1) [OF wf] by blast
  next
    case 2
    with tg show ?thesis by simp
  qed
  show "timers ?lp' (name (arg p)) = Some (handle p)" if "p \<in> set (pending ?lp')" for p
    using cases [OF that]
  proof cases
    case 1
    then have "name (arg p) \<noteq> name tg" using kept_other_name [OF wf] by blast
    moreover from 1 have "timers lp (name (arg p)) = Some (handle p)"
      using kept_subset wellFormedD(2) [OF wf] by blast
    ultimately show ?thesis by (simp add: debounce_fields)
  next
    case 2
    then show ?thesis by (simp add: debounce_fields)
  qed
  show "handle p < nextHandle ?lp'" if "p \<in> set (pending ?lp')" for p
    using cases [OF that]
  proof cases
    case 1
    then have "handle p < nextHandle lp" using kept_subset wellFormedD(3) [OF wf] by blast
    then show ?thesis by (simp add: debounce_fields)
  next
    case 2
    then show ?thesis by (simp add: debounce_fields)
  qed
  show "\<exists>p\<in>set (pending ?lp'). handle p = h \<and> name (arg p) = k" if "timers ?lp' k = Some h" for k h
  proof (cases "k = name tg")
    case True
    with that have "h = nextHandle lp" by (simp add: debounce_fields)
    with True show ?thesis by (simp add: debounce_fields)
  next
    case False
    with that have "timers lp k = Some h" by (simp add: debounce_fields)
    then obtain q where q: "q \<in> set (pending lp)" "handle q = h" "name (arg q) = k"
      using wellFormed_timer [OF wf] by blast
    with False have "q \<in> set (kept tg lp)" using kept_name [OF wf] by blast
    with q show ?thesis using pend by blast
  qed
  have "handle p \<noteq> nextHandle lp" if "p \<in> set (kept tg lp)" for p
    using that kept_subset wellFormedD(3) [OF wf, of p] by fastforce
  then have "nextHandle lp \<notin> handle ` set (kept tg lp)" by force
  then show "distinct (map handle (pending ?lp'))"
    using kept_distinct [OF wf, of tg] by (simp add: debounce_fields)
qed

lemma fire_fields:
  "timers (fire p lp) = (timers lp)(name (arg p) := None)"
  "pending (fire p lp) = clearTimeout (handle p) (pending lp)"
  "nextHandle (fire p lp) = nextHandle lp"
  "procs (fire p lp) = step (Start (arg p)) (procs lp)"
  by (simp_all add: fire_def timeoutCallback_def)

lemma wellFormed_fire:
  assumes wf: "wellFormed lp" and p: "p \<in> set (pending lp)"
  shows "wellFormed (fire p lp)"
proof (rule wellFormedI)
  let ?lp' = "fire p lp"
  have mem: "q \<in> set (pending ?lp') \<longleftrightarrow> q \<in> set (pending lp) \<and> handle q \<noteq> handle p" for q
    by (auto simp add: fire_fields clearTimeout_def)
  have other: "name (arg q) \<noteq> name (arg p)" if "q \<in> set (pending ?lp')" for q
  proof
    assume "name (arg q) = name (arg p)"
    moreover from that mem have q: "q \<in> set (pending lp)" "handle q \<noteq> handle p" by auto
    ultimately have "Some (handle q) = Some (handle p)"
      using wellFormedD(2) [OF wf q(1)] wellFormedD(2) [OF wf p] by simp
    with q show False by simp
  qed
  show "arg q \<in> set TARGETS" if "q \<in> set (pending ?lp')" for q
    using that mem wellFormedD(1) [OF wf] by blast
  show "timers ?lp' (name (arg q)) = Some (handle q)" if "q \<in> set (pending ?lp')" for q
    using that other [OF that] mem wellFormedD(2) [OF wf, of q] by (simp add: fire_fields)
  show "handle q < nextHandle ?lp'" if "q \<in> set (pending ?lp')" for q
    using that mem wellFormedD(3) [OF wf, of q] by (simp add: fire_fields)
  show "\<exists>q\<in>set (pending ?lp'). handle q = h \<and> name (arg q) = k" if "timers ?lp' k = Some h" for k h
  proof -
    from that have k: "k \<noteq> name (arg p)" and t: "timers lp k = Some h"
      by (auto simp add: fire_fields split: if_splits)
    from t obtain q where q: "q \<in> set (pending lp)" "handle q = h" "name (arg q) = k"
      using wellFormed_timer [OF wf] by blast
    have "handle q \<noteq> handle p"
    proof
      assume "handle q = handle p"
      with q p have "q = p" using wellFormed_handle_inj [OF wf] by blast
      with q k show False by simp
    qed
    with q mem show ?thesis by blast
  qed
  show "distinct (map handle (pending ?lp'))"
    using wellFormed_distinct [OF wf]
    by (simp add: fire_fields clearTimeout_def distinct_map_filter)
qed


lemma step_Start_fields:
  "store (step (Start tg) s) = store s"
  "trace (step (Start tg) s) = trace s"
  "tasks (step (Start tg) s) = tasks s @ [(tg, AwaitStat)]"
  by simp_all

lemma fold_fire:
  assumes "wellFormed lp" "set ds \<subseteq> set (pending lp)" "distinct (map handle ds)"
  shows "wellFormed (fold fire ds lp) \<and>
    pending (fold fire ds lp) = filter (\<lambda>q. handle q \<notin> handle ` set ds) (pending lp) \<and>
    nextHandle (fold fire ds lp) = nextHandle lp \<and>
    store (procs (fold fire ds lp)) = store (procs lp) \<and>
    trace (procs (fold fire ds lp)) = trace (procs lp) \<and>
    tasks (procs (fold fire ds lp)) = tasks (procs lp) @ map (\<lambda>p. (arg p, AwaitStat)) ds"
  using assms
proof (induction ds arbitrary: lp)
  case Nil
  then show ?case by simp
next
  case (Cons p ds)
  from Cons.prems have p: "p \<in> set (pending lp)" by simp
  have wf: "wellFormed (fire p lp)" using Cons.prems(1) p by (rule wellFormed_fire)
  have sub: "set ds \<subseteq> set (pending (fire p lp))"
  proof
    fix q assume q: "q \<in> set ds"
    with Cons.prems(3) have "handle q \<noteq> handle p"
      by (metis distinct.simps(2) image_eqI list.simps(9) set_map)
    with q Cons.prems(2) show "q \<in> set (pending (fire p lp))"
      by (auto simp add: fire_fields clearTimeout_def)
  qed
  from Cons.prems(3) have d: "distinct (map handle ds)" by simp
  note ih = Cons.IH [OF wf sub d]
  have "filter (\<lambda>q. handle q \<notin> handle ` set ds) (pending (fire p lp)) =
      filter (\<lambda>q. handle q \<notin> handle ` set (p # ds)) (pending lp)"
    by (auto simp add: fire_fields clearTimeout_def intro: filter_cong)
  with ih show ?case by (simp add: fire_fields)
qed

lemma dueAt_set: "set (dueAt now lp) = {p \<in> set (pending lp). due p \<le> now}"
  by (auto simp add: dueAt_def)

lemma dueAt_distinct:
  "wellFormed lp \<Longrightarrow> distinct (map handle (dueAt now lp))"
proof -
  assume "wellFormed lp"
  then have "distinct (pending lp)" and "inj_on handle (set (pending lp))"
    using wellFormed_distinct [of lp] by (simp_all add: distinct_map)
  moreover have "set (dueAt now lp) \<subseteq> set (pending lp)" by (auto simp add: dueAt_set)
  ultimately show ?thesis
    by (auto simp add: distinct_map dueAt_def intro: inj_on_subset)
qed

lemma runTimers_facts:
  assumes wf: "wellFormed lp"
  shows "wellFormed (runTimers now lp)"
    and "pending (runTimers now lp) = filter (\<lambda>q. \<not> due q \<le> now) (pending lp)"
    and "nextHandle (runTimers now lp) = nextHandle lp"
    and "store (procs (runTimers now lp)) = store (procs lp)"
    and "trace (procs (runTimers now lp)) = trace (procs lp)"
    and "tasks (procs (runTimers now lp)) =
      tasks (procs lp) @ map (\<lambda>p. (arg p, AwaitStat)) (dueAt now lp)"
proof -
  have sub: "set (dueAt now lp) \<subseteq> set (pending lp)" by (auto simp add: dueAt_set)
  note f = fold_fire [OF wf sub dueAt_distinct [OF wf], folded runTimers_def]
  from f show "wellFormed (runTimers now lp)" by simp
  from f show "nextHandle (runTimers now lp) = nextHandle lp" by simp
  from f show "store (procs (runTimers now lp)) = store (procs lp)" by simp
  from f show "trace (procs (runTimers now lp)) = trace (procs lp)" by simp
  from f show "tasks (procs (runTimers now lp)) =
      tasks (procs lp) @ map (\<lambda>p. (arg p, AwaitStat)) (dueAt now lp)" by simp
  have "handle q \<notin> handle ` set (dueAt now lp) \<longleftrightarrow> \<not> due q \<le> now"
    if q: "q \<in> set (pending lp)" for q
  proof
    assume "handle q \<notin> handle ` set (dueAt now lp)"
    with q show "\<not> due q \<le> now" by (auto simp add: dueAt_set)
  next
    assume n: "\<not> due q \<le> now"
    show "handle q \<notin> handle ` set (dueAt now lp)"
    proof
      assume "handle q \<in> handle ` set (dueAt now lp)"
      then obtain p where p: "p \<in> set (pending lp)" "due p \<le> now" "handle q = handle p"
        by (auto simp add: dueAt_set)
      with q have "q = p" using wellFormed_handle_inj [OF wf] by blast
      with p n show False by simp
    qed
  qed
  then have "filter (\<lambda>q. handle q \<notin> handle ` set (dueAt now lp)) (pending lp) =
      filter (\<lambda>q. \<not> due q \<le> now) (pending lp)"
    by (intro filter_cong) auto
  with f show "pending (runTimers now lp) = filter (\<lambda>q. \<not> due q \<le> now) (pending lp)"
    by simp
qed

lemma dueAt_of_target:
  "filter (\<lambda>p. arg p = tg) (dueAt now lp) =
     sort_key due (filter (\<lambda>p. due p \<le> now) (timeoutsOf tg lp))"
  by (simp add: dueAt_def timeoutsOf_def filter_sort conj_commute)

lemma checksOf_append [simp]: "checksOf tg (xs @ ys) = checksOf tg xs @ checksOf tg ys"
  by (simp add: checksOf_def)

lemma checksOf_started:
  "checksOf tg (map (\<lambda>p. (arg p, AwaitStat)) ds) =
     map (\<lambda>p. (tg, AwaitStat)) (filter (\<lambda>p. arg p = tg) ds)"
  by (induction ds) (simp_all add: checksOf_def)


lemma armedFor_wf: "armedFor tg d lp \<Longrightarrow> wellFormed lp"
  by (simp add: armedFor_def)

lemma kept_of_same:
  assumes "wellFormed lp"
  shows "filter (\<lambda>p. arg p = tg) (kept tg lp) = []"
  using kept_other_name [OF assms, of _ tg] by (auto simp add: filter_empty_conv)

lemma kept_of_other:
  assumes wf: "wellFormed lp" and ne: "name tg' \<noteq> name tg"
  shows "filter (\<lambda>p. arg p = tg) (kept tg' lp) = timeoutsOf tg lp"
proof (cases "timers lp (name tg')")
  case None
  then show ?thesis by (simp add: kept_def timeoutsOf_def)
next
  case (Some h)
  have "handle p \<noteq> h" if "p \<in> set (pending lp)" "arg p = tg" for p
  proof -
    from that ne have "p \<in> set (kept tg' lp)" using kept_name [OF wf, of p tg'] by auto
    with Some show ?thesis by (simp add: kept_def clearTimeout_def)
  qed
  then have "filter (\<lambda>p. arg p = tg \<and> handle p \<noteq> h) (pending lp) =
      filter (\<lambda>p. arg p = tg) (pending lp)"
    by (intro filter_cong) auto
  with Some show ?thesis
    by (simp add: kept_def clearTimeout_def timeoutsOf_def conj_commute)
qed

lemma armedFor_debounce_same:
  assumes "wellFormed lp" "tg \<in> set TARGETS"
  shows "armedFor tg (now + debounceMs) (debounceLocalHandle now tg lp)"
  using assms
  by (simp add: armedFor_def wellFormed_debounce timeoutsOf_def debounce_fields kept_of_same)

lemma armedFor_debounce_other:
  assumes "armedFor tg d lp" "tg' \<in> set TARGETS" "tg \<in> set TARGETS" "tg' \<noteq> tg"
  shows "armedFor tg d (debounceLocalHandle now tg' lp)"
proof -
  from assms(2-4) have ne: "name tg' \<noteq> name tg" using names_inj by blast
  from assms(1) have wf: "wellFormed lp" by (rule armedFor_wf)
  have "timeoutsOf tg (debounceLocalHandle now tg' lp) = timeoutsOf tg lp"
    using kept_of_other [OF wf ne] assms(4)
    by (simp add: timeoutsOf_def debounce_fields)
  with assms(1) wellFormed_debounce [OF wf assms(2)] show ?thesis
    by (simp add: armedFor_def)
qed

lemma onWatchEvent_cases:
  "onWatchEvent now f lp = lp \<or>
   (\<exists>tg'\<in>set TARGETS. f = Some (name tg') \<and> onWatchEvent now f lp = debounceLocalHandle now tg' lp)"
  by (auto simp add: onWatchEvent_def split: option.splits dest: find_in_targets)

lemma onWatchEvent_procs [simp]: "procs (onWatchEvent now f lp) = procs lp"
  using onWatchEvent_cases [of now f lp] by (auto simp add: debounce_fields)

lemma wellFormed_onWatchEvent:
  "wellFormed lp \<Longrightarrow> wellFormed (onWatchEvent now f lp)"
  using onWatchEvent_cases [of now f lp] by (auto simp add: wellFormed_debounce)

lemma onWatchEvent_target:
  "tg \<in> set TARGETS \<Longrightarrow> onWatchEvent now (Some (name tg)) lp = debounceLocalHandle now tg lp"
  by (simp add: onWatchEvent_def find_target name_target)

lemma armedFor_onWatchEvent:
  assumes a: "armedFor tg d lp" and tg: "tg \<in> set TARGETS"
  shows "armedFor tg (if WatchEvent f = watchOf tg then now + debounceMs else d)
    (onWatchEvent now f lp)"
proof (cases "WatchEvent f = watchOf tg")
  case True
  then have "f = Some (name tg)" by (simp add: watchOf_def)
  with True tg armedFor_wf [OF a] show ?thesis
    by (simp add: onWatchEvent_target armedFor_debounce_same)
next
  case False
  from onWatchEvent_cases [of now f lp] show ?thesis
  proof
    assume "onWatchEvent now f lp = lp"
    with a False show ?thesis by simp
  next
    assume "\<exists>tg'\<in>set TARGETS. f = Some (name tg') \<and>
      onWatchEvent now f lp = debounceLocalHandle now tg' lp"
    then obtain tg' where tg': "tg' \<in> set TARGETS" "f = Some (name tg')"
      "onWatchEvent now f lp = debounceLocalHandle now tg' lp" by blast
    with False have "tg' \<noteq> tg" by (auto simp add: watchOf_def)
    with a tg tg' False show ?thesis by (simp add: armedFor_debounce_other)
  qed
qed

lemma timeoutsOf_runTimers:
  "wellFormed lp \<Longrightarrow>
   timeoutsOf tg (runTimers now lp) = filter (\<lambda>q. \<not> due q \<le> now) (timeoutsOf tg lp)"
  by (simp add: timeoutsOf_def runTimers_facts(2) conj_commute)

lemma checksOf_runTimers:
  "wellFormed lp \<Longrightarrow>
   checksOf tg (tasks (procs (runTimers now lp))) =
     checksOf tg (tasks (procs lp)) @
     map (\<lambda>p. (tg, AwaitStat)) (sort_key due (filter (\<lambda>p. due p \<le> now) (timeoutsOf tg lp)))"
  by (simp add: runTimers_facts(6) checksOf_started dueAt_of_target)

lemma armedFor_early:
  assumes "armedFor tg d lp" "now < d"
  shows "armedFor tg d (runTimers now lp)"
    and "checksOf tg (tasks (procs (runTimers now lp))) = checksOf tg (tasks (procs lp))"
proof -
  from assms(1) obtain h where wf: "wellFormed lp"
    and t: "timeoutsOf tg lp = [\<lparr>handle = h, due = d, arg = tg\<rparr>]"
    by (auto simp add: armedFor_def)
  from assms(2) t show "armedFor tg d (runTimers now lp)"
    by (simp add: armedFor_def runTimers_facts(1) [OF wf] timeoutsOf_runTimers [OF wf])
  from assms(2) t show "checksOf tg (tasks (procs (runTimers now lp))) = checksOf tg (tasks (procs lp))"
    by (simp add: checksOf_runTimers [OF wf])
qed

lemma armedFor_due:
  assumes "armedFor tg d lp" "d \<le> now"
  shows "timeoutsOf tg (runTimers now lp) = []"
    and "checksOf tg (tasks (procs (runTimers now lp))) =
      checksOf tg (tasks (procs lp)) @ [(tg, AwaitStat)]"
proof -
  from assms(1) obtain h where wf: "wellFormed lp"
    and t: "timeoutsOf tg lp = [\<lparr>handle = h, due = d, arg = tg\<rparr>]"
    by (auto simp add: armedFor_def)
  from assms(2) t show "timeoutsOf tg (runTimers now lp) = []"
    by (simp add: timeoutsOf_runTimers [OF wf])
  from assms(2) t show "checksOf tg (tasks (procs (runTimers now lp))) =
      checksOf tg (tasks (procs lp)) @ [(tg, AwaitStat)]"
    by (simp add: checksOf_runTimers [OF wf])
qed


lemma fold_Start:
  "tasks (fold (\<lambda>tg s. step (Start tg) s) tgs s) = tasks s @ map (\<lambda>t. (t, AwaitStat)) tgs \<and>
   store (fold (\<lambda>tg s. step (Start tg) s) tgs s) = store s \<and>
   trace (fold (\<lambda>tg s. step (Start tg) s) tgs s) = trace s"
  by (induction tgs arbitrary: s) simp_all

lemma onScanTick_fields:
  "timers (onScanTick lp) = timers lp"
  "pending (onScanTick lp) = pending lp"
  "nextHandle (onScanTick lp) = nextHandle lp"
  "tasks (procs (onScanTick lp)) = tasks (procs lp) @ map (\<lambda>t. (t, AwaitStat)) TARGETS"
  "store (procs (onScanTick lp)) = store (procs lp)"
  "trace (procs (onScanTick lp)) = trace (procs lp)"
  by (simp_all add: onScanTick_def fold_Start del: step.simps)

lemma checksOf_targets:
  "tg \<in> set TARGETS \<Longrightarrow> checksOf tg (map (\<lambda>t. (t, AwaitStat)) TARGETS) = [(tg, AwaitStat)]"
  by (auto simp add: checksOf_def TARGETS_def)

lemma wellFormed_cong:
  "timers lp' = timers lp \<Longrightarrow> pending lp' = pending lp \<Longrightarrow> nextHandle lp' = nextHandle lp \<Longrightarrow>
   wellFormed lp' = wellFormed lp"
  by (simp add: wellFormed_def)

lemma armedFor_cong:
  "timers lp' = timers lp \<Longrightarrow> pending lp' = pending lp \<Longrightarrow> nextHandle lp' = nextHandle lp \<Longrightarrow>
   armedFor tg d lp' = armedFor tg d lp"
  by (simp add: armedFor_def timeoutsOf_def wellFormed_def)

lemma step_answer_targets:
  "map fst (tasks (step (StatDone i st) s)) = map fst (tasks s)"
  "map fst (tasks (step (ReadDone i rd) s)) = map fst (tasks s)"
  by (auto simp add: Let_def split_beta map_update list_update_same_conv)

lemma checksOf_length: "length (checksOf tg cs) = length (filter (\<lambda>t. t = tg) (map fst cs))"
  by (simp add: checksOf_def filter_map comp_def)

lemma checksOf_answer:
  "length (checksOf tg (tasks (step (StatDone i st) s))) = length (checksOf tg (tasks s))"
  "length (checksOf tg (tasks (step (ReadDone i rd) s))) = length (checksOf tg (tasks s))"
  by (simp_all only: checksOf_length step_answer_targets)

lemma wellFormed_loopStep:
  assumes "wellFormed lp"
  shows "wellFormed (loopStep e lp)"
proof -
  obtain now ev where e: "e = (now, ev)" by (cases e)
  have r: "wellFormed (runTimers now lp)" using assms by (rule runTimers_facts(1))
  show ?thesis
  proof (cases ev)
    case (WatchEvent f)
    with e r show ?thesis by (simp add: wellFormed_onWatchEvent)
  next
    case ScanTick
    with e r show ?thesis by (simp add: wellFormed_cong [of "onScanTick _"] onScanTick_fields)
  next
    case (StatAnswer i st)
    with e r show ?thesis by (simp add: wellFormed_def)
  next
    case (ReadAnswer i rd)
    with e r show ?thesis by (simp add: wellFormed_def)
  next
    case Idle
    with e r show ?thesis by simp
  qed
qed

lemma wellFormed_runLoop: "wellFormed lp \<Longrightarrow> wellFormed (runLoop evs lp)"
  unfolding runLoop_def by (induction evs arbitrary: lp) (simp_all add: wellFormed_loopStep)

lemma runLoop_Cons: "runLoop (e # evs) lp = runLoop evs (loopStep e lp)"
  by (simp add: runLoop_def)

lemma runLoop_append: "runLoop (xs @ ys) lp = runLoop ys (runLoop xs lp)"
  by (simp add: runLoop_def)

lemma window_step:
  assumes a: "armedFor tg (t + debounceMs) lp" and tg: "tg \<in> set TARGETS"
    and u: "u < t + debounceMs"
  shows "armedFor tg ((if ev = watchOf tg then u else t) + debounceMs) (loopStep (u, ev) lp) \<and>
    startedFor tg (loopStep (u, ev) lp) = startedFor tg lp + (if ev = ScanTick then 1 else 0)"
proof -
  let ?lp1 = "runTimers u lp"
  have a1: "armedFor tg (t + debounceMs) ?lp1"
    and c1: "startedFor tg ?lp1 = startedFor tg lp"
    using armedFor_early [OF a u] by (simp_all add: startedFor_def)
  show ?thesis
  proof (cases ev)
    case (WatchEvent f)
    have "armedFor tg (if WatchEvent f = watchOf tg then u + debounceMs else t + debounceMs)
        (onWatchEvent u f ?lp1)"
      using a1 tg by (rule armedFor_onWatchEvent)
    with WatchEvent c1 show ?thesis
      by (cases "WatchEvent f = watchOf tg") (simp_all add: startedFor_def watchOf_def)
  next
    case ScanTick
    have "armedFor tg (t + debounceMs) (onScanTick ?lp1)"
      using a1 by (simp add: armedFor_cong [of "onScanTick _"] onScanTick_fields)
    moreover have "startedFor tg (onScanTick ?lp1) = startedFor tg ?lp1 + 1"
      using tg by (simp add: startedFor_def onScanTick_fields checksOf_targets)
    ultimately show ?thesis using ScanTick c1 by (simp add: watchOf_def)
  next
    case (StatAnswer i st)
    have "armedFor tg (t + debounceMs) (?lp1\<lparr>procs := step (StatDone i st) (procs ?lp1)\<rparr>)"
      using a1 by (simp add: armedFor_def timeoutsOf_def wellFormed_def)
    moreover have "startedFor tg (?lp1\<lparr>procs := step (StatDone i st) (procs ?lp1)\<rparr>) =
        startedFor tg ?lp1"
      by (simp add: startedFor_def checksOf_answer del: step.simps)
    ultimately show ?thesis using StatAnswer c1 by (simp add: watchOf_def)
  next
    case (ReadAnswer i rd)
    have "armedFor tg (t + debounceMs) (?lp1\<lparr>procs := step (ReadDone i rd) (procs ?lp1)\<rparr>)"
      using a1 by (simp add: armedFor_def timeoutsOf_def wellFormed_def)
    moreover have "startedFor tg (?lp1\<lparr>procs := step (ReadDone i rd) (procs ?lp1)\<rparr>) =
        startedFor tg ?lp1"
      by (simp add: startedFor_def checksOf_answer del: step.simps)
    ultimately show ?thesis using ReadAnswer c1 by (simp add: watchOf_def)
  next
    case Idle
    with a1 c1 show ?thesis by (simp add: watchOf_def)
  qed
qed

lemma window_run:
  assumes tg: "tg \<in> set TARGETS"
  shows "armedFor tg (t + debounceMs) lp \<Longrightarrow> inWindow tg t evs \<Longrightarrow>
    armedFor tg (lastWatch tg t evs + debounceMs) (runLoop evs lp) \<and>
    startedFor tg (runLoop evs lp) = startedFor tg lp + scanTicks evs"
proof (induction evs arbitrary: lp t)
  case Nil
  then show ?case by (simp add: runLoop_def scanTicks_def)
next
  case (Cons e evs)
  obtain u ev where e: "e = (u, ev)" by (cases e)
  let ?t' = "if ev = watchOf tg then u else t"
  from Cons.prems(2) e have u: "u < t + debounceMs" and rest: "inWindow tg ?t' evs" by simp_all
  note s = window_step [OF Cons.prems(1) tg u, of ev]
  from s have a': "armedFor tg (?t' + debounceMs) (loopStep e lp)" by (simp add: e)
  from Cons.IH [OF a' rest] s show ?case
    by (simp add: e runLoop_Cons scanTicks_def)
qed


lemma consistent_fold_fire: "consistent (procs lp) \<Longrightarrow> consistent (procs (fold fire ds lp))"
  by (induction ds arbitrary: lp) (simp_all add: fire_fields consistent_Start del: step.simps)

lemma consistent_fold_Start:
  "consistent s \<Longrightarrow> consistent (fold (\<lambda>tg s. step (Start tg) s) tgs s)"
  by (induction tgs arbitrary: s) (simp_all add: consistent_Start del: step.simps)

lemma consistent_loopStep:
  assumes "consistent (procs lp)"
  shows "consistent (procs (loopStep e lp))"
proof -
  obtain now ev where e: "e = (now, ev)" by (cases e)
  have r: "consistent (procs (runTimers now lp))"
    unfolding runTimers_def using assms by (rule consistent_fold_fire)
  from r e show ?thesis
    by (cases ev)
       (simp_all add: onScanTick_def consistent_fold_Start consistent_StatDone consistent_ReadDone
          del: step.simps)
qed

lemma consistent_runLoop: "consistent (procs lp) \<Longrightarrow> consistent (procs (runLoop evs lp))"
  unfolding runLoop_def by (induction evs arbitrary: lp) (simp_all add: consistent_loopStep)

lemma consistent_boot: "consistent (procs boot)"
  by (simp add: boot_def consistent_start)

lemma consistent_notifications:
  assumes "consistent s"
  shows "length (notifications (effectsOf k (trace s))) \<le> 1"
proof (cases "k < length (tasks s)")
  case False
  then have "effectsOf k (trace s) = []"
    using consistent_bound [OF assms] by (intro effectsOf_unused) fastforce
  then show ?thesis by (simp add: notifications_def)
next
  case True
  with assms have "taskOk (trace s) k (tasks s ! k)" by (rule consistent_task)
  then show ?thesis
    by (cases "snd (tasks s ! k)") (auto simp add: taskOk_def notifications_def)
qed

lemma step_stat_new:
  assumes "k < length (tasks s)" "tasks s ! k = (tg, AwaitStat)"
    "prevHandled (store s) (filePath tg) < m"
  shows "step (StatDone k (StatOk m)) s =
    s\<lparr>store := (store s)\<lparr>lastHandled := (lastHandled (store s))(filePath tg \<mapsto> m)\<rparr>,
      tasks := (tasks s)[k := (tg, AwaitRead)],
      trace := trace s @ [(k, SetLastHandled (filePath tg) m)]\<rparr>"
  using assms by (simp add: afterStat_def Let_def)

lemma step_read:
  assumes "k < length (tasks s)" "tasks s ! k = (tg, AwaitRead)"
  shows "step (ReadDone k rd) s =
    s\<lparr>tasks := (tasks s)[k := (tg, Finished)],
      trace := trace s @
        [(k, TriggerNotification (agent tg)
               (case rd of ReadOk text \<Rightarrow> trim text | ReadError \<Rightarrow> []))]\<rparr>"
  using assms by (simp add: afterRead_def Let_def)

lemma reading_step:
  assumes k: "k < length (tasks s)" and tk: "tasks s ! k = (tg, AwaitRead)"
    and mv: "\<forall>rd. mv \<noteq> ReadDone k rd"
  shows "k < length (tasks (step mv s)) \<and> tasks (step mv s) ! k = (tg, AwaitRead) \<and>
    effectsOf k (trace (step mv s)) = effectsOf k (trace s)"
proof (cases mv)
  case (Start t)
  with k tk show ?thesis by (simp add: nth_append)
next
  case (StatDone i st)
  show ?thesis
  proof (cases "i = k")
    case True
    with StatDone k tk show ?thesis by simp
  next
    case False
    with StatDone k tk show ?thesis by (simp add: Let_def split_beta)
  qed
next
  case (ReadDone i rd)
  with mv have "i \<noteq> k" by blast
  with ReadDone k tk show ?thesis by (simp add: Let_def afterRead_def)
qed

lemma reading_loopStep:
  assumes wf: "wellFormed lp" and k: "k < length (tasks (procs lp))"
    and tk: "tasks (procs lp) ! k = (tg, AwaitRead)"
    and e: "\<forall>rd. snd e \<noteq> ReadAnswer k rd"
  shows "k < length (tasks (procs (loopStep e lp))) \<and>
    tasks (procs (loopStep e lp)) ! k = (tg, AwaitRead) \<and>
    effectsOf k (trace (procs (loopStep e lp))) = effectsOf k (trace (procs lp))"
proof -
  obtain now ev where ev: "e = (now, ev)" by (cases e)
  let ?r = "runTimers now lp"
  note r = runTimers_facts [OF wf, of now]
  have k1: "k < length (tasks (procs ?r))" and tk1: "tasks (procs ?r) ! k = (tg, AwaitRead)"
    using k tk by (simp_all add: r(6) nth_append)
  have t1: "effectsOf k (trace (procs ?r)) = effectsOf k (trace (procs lp))" by (simp add: r(5))
  show ?thesis
  proof (cases ev)
    case (WatchEvent f)
    with ev k1 tk1 t1 show ?thesis by simp
  next
    case ScanTick
    with ev k1 tk1 t1 show ?thesis by (simp add: onScanTick_fields nth_append)
  next
    case (StatAnswer i st)
    from reading_step [OF k1 tk1, of "StatDone i st"] t1 StatAnswer ev show ?thesis
      by (simp del: step.simps)
  next
    case (ReadAnswer i rd)
    with e ev have "\<forall>rd'. ReadDone i rd \<noteq> ReadDone k rd'" by auto
    from reading_step [OF k1 tk1 this] t1 ReadAnswer ev show ?thesis
      by (simp del: step.simps)
  next
    case Idle
    with ev k1 tk1 t1 show ?thesis by simp
  qed
qed

lemma reading_runLoop:
  "wellFormed lp \<Longrightarrow> k < length (tasks (procs lp)) \<Longrightarrow>
   tasks (procs lp) ! k = (tg, AwaitRead) \<Longrightarrow>
   \<forall>e\<in>set evs. \<forall>rd. snd e \<noteq> ReadAnswer k rd \<Longrightarrow>
   k < length (tasks (procs (runLoop evs lp))) \<and>
   tasks (procs (runLoop evs lp)) ! k = (tg, AwaitRead) \<and>
   effectsOf k (trace (procs (runLoop evs lp))) = effectsOf k (trace (procs lp))"
proof (induction evs arbitrary: lp)
  case Nil
  then show ?case by (simp add: runLoop_def)
next
  case (Cons e evs)
  from Cons.prems(4) have e: "\<forall>rd. snd e \<noteq> ReadAnswer k rd"
    and rest: "\<forall>e\<in>set evs. \<forall>rd. snd e \<noteq> ReadAnswer k rd" by simp_all
  note s = reading_loopStep [OF Cons.prems(1-3) e]
  from s have s1: "k < length (tasks (procs (loopStep e lp)))"
    and s2: "tasks (procs (loopStep e lp)) ! k = (tg, AwaitRead)"
    and s3: "effectsOf k (trace (procs (loopStep e lp))) = effectsOf k (trace (procs lp))"
    by simp_all
  from Cons.IH [OF wellFormed_loopStep [OF Cons.prems(1)] s1 s2 rest] s3
  show ?case by (simp add: runLoop_Cons)
qed

lemma check_dispatches:
  assumes wf: "wellFormed lp" and k: "k < length (tasks (procs lp))"
    and tk: "tasks (procs lp) ! k = (tg, AwaitStat)"
    and none: "effectsOf k (trace (procs lp)) = []"
    and new: "prevHandled (store (procs lp)) (filePath tg) < m"
    and between: "\<forall>e\<in>set between. \<forall>rd'. snd e \<noteq> ReadAnswer k rd'"
  shows "effectsOf k (trace (procs
      (runLoop ((u, StatAnswer k (StatOk m)) # between @ [(v, ReadAnswer k rd)]) lp))) =
    [SetLastHandled (filePath tg) m,
     TriggerNotification (agent tg) (case rd of ReadOk text \<Rightarrow> trim text | ReadError \<Rightarrow> [])]"
proof -
  let ?lp1 = "runTimers u lp"
  let ?s1 = "procs ?lp1"
  let ?lp2 = "?lp1\<lparr>procs := step (StatDone k (StatOk m)) ?s1\<rparr>"
  let ?lp3 = "runLoop between ?lp2"
  let ?lp4 = "runTimers v ?lp3"
  let ?s4 = "procs ?lp4"
  note r1 = runTimers_facts [OF wf, of u]
  have k1: "k < length (tasks ?s1)" and tk1: "tasks ?s1 ! k = (tg, AwaitStat)"
    using k tk by (simp_all add: r1(6) nth_append)
  have new1: "prevHandled (store ?s1) (filePath tg) < m" using new by (simp add: r1(4))
  note st = step_stat_new [OF k1 tk1 new1]
  have wf2: "wellFormed ?lp2" using r1(1) by (simp add: wellFormed_def)
  have k2: "k < length (tasks (procs ?lp2))"
    and tk2: "tasks (procs ?lp2) ! k = (tg, AwaitRead)"
    using k1 by (simp_all add: st del: step.simps)
  have e2: "effectsOf k (trace (procs ?lp2)) = [SetLastHandled (filePath tg) m]"
    using none by (simp add: st r1(5) del: step.simps)
  note b = reading_runLoop [OF wf2 k2 tk2 between]
  from b have k3: "k < length (tasks (procs ?lp3))"
    and tk3: "tasks (procs ?lp3) ! k = (tg, AwaitRead)"
    and e3: "effectsOf k (trace (procs ?lp3)) = [SetLastHandled (filePath tg) m]"
    using e2 by (simp_all del: step.simps)
  have wf3: "wellFormed ?lp3" using wf2 by (rule wellFormed_runLoop)
  note r4 = runTimers_facts [OF wf3, of v]
  have k4: "k < length (tasks ?s4)" and tk4: "tasks ?s4 ! k = (tg, AwaitRead)"
    unfolding r4(6) using k3 tk3 by (simp_all add: nth_append del: step.simps)
  have e4: "effectsOf k (trace ?s4) = [SetLastHandled (filePath tg) m]"
    unfolding r4(5) by (rule e3)
  note rd = step_read [OF k4 tk4, of rd]
  have "effectsOf k (trace (step (ReadDone k rd) ?s4)) =
      [SetLastHandled (filePath tg) m,
       TriggerNotification (agent tg) (case rd of ReadOk text \<Rightarrow> trim text | ReadError \<Rightarrow> [])]"
    unfolding rd by (simp add: e4 del: step.simps)
  then show ?thesis
    by (simp add: runLoop_Cons runLoop_append del: step.simps) (simp add: runLoop_def del: step.simps)
qed

lemma tasks_length_step: "length (tasks s) \<le> length (tasks (step mv s))"
  by (cases mv) (simp_all add: Let_def split_beta)

lemma tasks_length_loopStep:
  assumes "wellFormed lp"
  shows "length (tasks (procs lp)) \<le> length (tasks (procs (loopStep e lp)))"
proof -
  obtain now ev where e: "e = (now, ev)" by (cases e)
  have r: "length (tasks (procs lp)) \<le> length (tasks (procs (runTimers now lp)))"
    by (simp add: runTimers_facts(6) [OF assms])
  show ?thesis
  proof (cases ev)
    case (WatchEvent f)
    with e r show ?thesis by simp
  next
    case ScanTick
    with e r show ?thesis by (simp add: onScanTick_fields)
  next
    case (StatAnswer i st)
    with e r tasks_length_step [of "procs (runTimers now lp)" "StatDone i st"] show ?thesis
      by (simp del: step.simps)
  next
    case (ReadAnswer i rd)
    with e r tasks_length_step [of "procs (runTimers now lp)" "ReadDone i rd"] show ?thesis
      by (simp del: step.simps)
  next
    case Idle
    with e r show ?thesis by simp
  qed
qed

lemma tasks_length_runLoop:
  "wellFormed lp \<Longrightarrow> length (tasks (procs lp)) \<le> length (tasks (procs (runLoop evs lp)))"
proof (induction evs arbitrary: lp)
  case Nil
  then show ?case by (simp add: runLoop_def)
next
  case (Cons e evs)
  have "length (tasks (procs lp)) \<le> length (tasks (procs (loopStep e lp)))"
    using Cons.prems by (rule tasks_length_loopStep)
  also have "\<dots> \<le> length (tasks (procs (runLoop evs (loopStep e lp))))"
    using wellFormed_loopStep [OF Cons.prems] by (rule Cons.IH)
  finally show ?case by (simp add: runLoop_Cons)
qed

text \<open>
  Claim C5, as amended. The loop is in any state reached from \<open>boot\<close>: timeouts of any
  signal may be pending and checks may be running. A change notification for the file of
  a signal of \<open>TARGETS\<close> arrives at time \<open>t\<close>, followed by the events \<open>evs\<close> of its debounce
  window, which may be anything: further change notifications for the file, change
  notifications for other entries of the directory, ticks of the scan, answers to running
  checks. After them exactly one timeout of the signal is pending, due \<open>debounceMs\<close> after
  the last change notification for the file, and the checks of the signal started in the
  window are one for each tick of the scan: no timeout of the signal has run. When the
  loop next runs its timers, at a time \<open>T\<close> at which the timeout is due, no timeout of the
  signal is left and exactly one check of the signal is started; it has done nothing yet,
  and the maps and the effects are as before. Whatever happens afterwards that check sends
  at most one notification. Whenever \<open>fs.stat\<close> answers it, while it waits, a modification
  time newer than the stored one, and \<open>fs.readFile\<close> answers it after any other events, the
  effects of the check are to write the time and then to send exactly one notification,
  whose context is what the read gave (trimmed; empty when the read fails).
\<close>

theorem debounce_one_check:
  assumes tg: "tg \<in> set TARGETS" and win: "inWindow tg t evs"
    and T: "lastWatch tg t evs + debounceMs \<le> T"
    and s0: "s0 = runLoop pre boot"
    and s1: "s1 = runLoop ((t, watchOf tg) # evs) s0"
    and s2: "s2 = runTimers T s1"
  shows
    "(\<exists>h. timeoutsOf tg s1 =
        [\<lparr>handle = h, due = lastWatch tg t evs + debounceMs, arg = tg\<rparr>]) \<and>
     length (checksOf tg (tasks (procs s1))) =
       length (checksOf tg (tasks (procs (runTimers t s0)))) + scanTicks evs \<and>
     timeoutsOf tg s2 = [] \<and>
     checksOf tg (drop (length (tasks (procs s1))) (tasks (procs s2))) = [(tg, AwaitStat)] \<and>
     store (procs s2) = store (procs s1) \<and>
     trace (procs s2) = trace (procs s1) \<and>
     (\<exists>k. length (tasks (procs s1)) \<le> k \<and> k < length (tasks (procs s2)) \<and>
        tasks (procs s2) ! k = (tg, AwaitStat) \<and>
        effectsOf k (trace (procs s2)) = [] \<and>
        (\<forall>post. length (notifications (effectsOf k (trace (procs (runLoop post s2))))) \<le> 1) \<and>
        (\<forall>mid between m rd u v.
           tasks (procs (runLoop mid s2)) ! k = (tg, AwaitStat) \<and>
           prevHandled (store (procs (runLoop mid s2))) (filePath tg) < m \<and>
           (\<forall>e\<in>set between. \<forall>rd'. snd e \<noteq> ReadAnswer k rd') \<longrightarrow>
           effectsOf k (trace (procs (runLoop
               (mid @ (u, StatAnswer k (StatOk m)) # between @ [(v, ReadAnswer k rd)]) s2))) =
             [SetLastHandled (filePath tg) m,
              TriggerNotification (agent tg)
                (case rd of ReadOk text \<Rightarrow> trim text | ReadError \<Rightarrow> [])]))"
proof -
  let ?d = "lastWatch tg t evs + debounceMs"
  have wf0: "wellFormed s0" unfolding s0 using wellFormed_boot by (rule wellFormed_runLoop)
  have co0: "consistent (procs s0)" unfolding s0 using consistent_boot by (rule consistent_runLoop)
  let ?r = "runTimers t s0"
  let ?a = "loopStep (t, watchOf tg) s0"
  have wfr: "wellFormed ?r" using wf0 by (rule runTimers_facts(1))
  have a: "?a = debounceLocalHandle t tg ?r"
    using tg by (simp add: watchOf_def onWatchEvent_target)
  have arm: "armedFor tg (t + debounceMs) ?a"
    unfolding a using wfr tg by (rule armedFor_debounce_same)
  have sta: "startedFor tg ?a = startedFor tg ?r"
    by (simp add: a startedFor_def debounce_fields)
  have run: "s1 = runLoop evs ?a" by (simp add: s1 runLoop_Cons)
  from window_run [OF tg arm win]
  have arm1: "armedFor tg ?d s1" and st1: "startedFor tg s1 = startedFor tg ?a + scanTicks evs"
    by (simp_all add: run)
  from arm1 obtain h where wf1: "wellFormed s1"
    and t1: "timeoutsOf tg s1 = [\<lparr>handle = h, due = ?d, arg = tg\<rparr>]"
    by (auto simp add: armedFor_def)
  have co1: "consistent (procs s1)" unfolding s1 using co0 by (rule consistent_runLoop)
  note r2 = runTimers_facts [OF wf1, of T, folded s2]
  have c1: "\<exists>h. timeoutsOf tg s1 = [\<lparr>handle = h, due = ?d, arg = tg\<rparr>]"
    using t1 by blast
  have c2: "length (checksOf tg (tasks (procs s1))) =
       length (checksOf tg (tasks (procs ?r))) + scanTicks evs"
    using st1 sta by (simp add: startedFor_def)
  have c3: "timeoutsOf tg s2 = []"
    unfolding s2 using arm1 T by (rule armedFor_due(1))
  have due: "filter (\<lambda>p. arg p = tg) (dueAt T s1) = [\<lparr>handle = h, due = ?d, arg = tg\<rparr>]"
    using T by (simp add: dueAt_of_target t1)
  have c4: "checksOf tg (drop (length (tasks (procs s1))) (tasks (procs s2))) = [(tg, AwaitStat)]"
    by (simp add: r2(6) checksOf_started due)
  have c5: "store (procs s2) = store (procs s1)" by (rule r2(4))
  have c6: "trace (procs s2) = trace (procs s1)" by (rule r2(5))
  have "\<lparr>handle = h, due = ?d, arg = tg\<rparr> \<in> set (filter (\<lambda>p. arg p = tg) (dueAt T s1))"
    by (simp add: due)
  then have "\<lparr>handle = h, due = ?d, arg = tg\<rparr> \<in> set (dueAt T s1)" by simp
  then obtain j where j: "j < length (dueAt T s1)"
    and pj: "dueAt T s1 ! j = \<lparr>handle = h, due = ?d, arg = tg\<rparr>"
    by (auto simp add: in_set_conv_nth)
  let ?k = "length (tasks (procs s1)) + j"
  have k1: "length (tasks (procs s1)) \<le> ?k" by simp
  have k2: "?k < length (tasks (procs s2))" using j by (simp add: r2(6))
  have k3: "tasks (procs s2) ! ?k = (tg, AwaitStat)" using j pj by (simp add: r2(6) nth_append)
  have k4: "effectsOf ?k (trace (procs s2)) = []"
    unfolding c6 using consistent_bound [OF co1] by (intro effectsOf_unused) fastforce
  have co2: "consistent (procs s2)"
    using consistent_loopStep [OF co1, of "(T, Idle)"] by (simp add: s2)
  have k5: "\<forall>post. length (notifications (effectsOf ?k (trace (procs (runLoop post s2))))) \<le> 1"
    using consistent_runLoop [OF co2] consistent_notifications by blast
  have k6: "\<forall>mid between m rd u v.
           tasks (procs (runLoop mid s2)) ! ?k = (tg, AwaitStat) \<and>
           prevHandled (store (procs (runLoop mid s2))) (filePath tg) < m \<and>
           (\<forall>e\<in>set between. \<forall>rd'. snd e \<noteq> ReadAnswer ?k rd') \<longrightarrow>
           effectsOf ?k (trace (procs (runLoop
               (mid @ (u, StatAnswer ?k (StatOk m)) # between @ [(v, ReadAnswer ?k rd)]) s2))) =
             [SetLastHandled (filePath tg) m,
              TriggerNotification (agent tg)
                (case rd of ReadOk text \<Rightarrow> trim text | ReadError \<Rightarrow> [])]"
  proof (intro allI impI)
    fix mid between :: "(nat \<times> loop_event) list" and m rd and u v :: nat
    assume h: "tasks (procs (runLoop mid s2)) ! ?k = (tg, AwaitStat) \<and>
           prevHandled (store (procs (runLoop mid s2))) (filePath tg) < m \<and>
           (\<forall>e\<in>set between. \<forall>rd'. snd e \<noteq> ReadAnswer ?k rd')"
    have wfm: "wellFormed (runLoop mid s2)" using r2(1) by (rule wellFormed_runLoop)
    have com: "consistent (procs (runLoop mid s2))" using co2 by (rule consistent_runLoop)
    have km: "?k < length (tasks (procs (runLoop mid s2)))"
      using k2 tasks_length_runLoop [OF r2(1), of mid] by simp
    from h have tk: "tasks (procs (runLoop mid s2)) ! ?k = (tg, AwaitStat)"
      and new: "prevHandled (store (procs (runLoop mid s2))) (filePath tg) < m"
      and btw: "\<forall>e\<in>set between. \<forall>rd'. snd e \<noteq> ReadAnswer ?k rd'" by simp_all
    have none: "effectsOf ?k (trace (procs (runLoop mid s2))) = []"
      using consistent_task [OF com km] by (simp add: taskOk_def tk)
    show "effectsOf ?k (trace (procs (runLoop
               (mid @ (u, StatAnswer ?k (StatOk m)) # between @ [(v, ReadAnswer ?k rd)]) s2))) =
             [SetLastHandled (filePath tg) m,
              TriggerNotification (agent tg)
                (case rd of ReadOk text \<Rightarrow> trim text | ReadError \<Rightarrow> [])]"
      unfolding runLoop_append by (rule check_dispatches [OF wfm km tk none new btw])
  qed
  from k1 k2 k3 k4 k5 k6 have c7: "\<exists>k. length (tasks (procs s1)) \<le> k \<and> k < length (tasks (procs s2)) \<and>
        tasks (procs s2) ! k = (tg, AwaitStat) \<and>
        effectsOf k (trace (procs s2)) = [] \<and>
        (\<forall>post. length (notifications (effectsOf k (trace (procs (runLoop post s2))))) \<le> 1) \<and>
        (\<forall>mid between m rd u v.
           tasks (procs (runLoop mid s2)) ! k = (tg, AwaitStat) \<and>
           prevHandled (store (procs (runLoop mid s2))) (filePath tg) < m \<and>
           (\<forall>e\<in>set between. \<forall>rd'. snd e \<noteq> ReadAnswer k rd') \<longrightarrow>
           effectsOf k (trace (procs (runLoop
               (mid @ (u, StatAnswer k (StatOk m)) # between @ [(v, ReadAnswer k rd)]) s2))) =
             [SetLastHandled (filePath tg) m,
              TriggerNotification (agent tg)
                (case rd of ReadOk text \<Rightarrow> trim text | ReadError \<Rightarrow> [])])"
    by (intro exI [of _ ?k] conjI)
  show ?thesis
    using c1 c2 c3 c4 c5 c6 c7 by - (intro conjI; assumption)
qed


lemma target0_in: "TARGETS ! 0 \<in> set TARGETS"
  by (simp add: TARGETS_def)

theorem debounce_one_check_witness:
  "TARGETS ! 0 \<in> set TARGETS \<and>
   inWindow (TARGETS ! 0) 10
     [(50, ScanTick), (60, StatAnswer 0 (StatOk 10)), (100, watchOf (TARGETS ! 0)),
      (120, WatchEvent (Some ''collab.json'')), (130, WatchEvent (Some ''notify-replit''))] \<and>
   lastWatch (TARGETS ! 0) 10
     [(50, ScanTick), (60, StatAnswer 0 (StatOk 10)), (100, watchOf (TARGETS ! 0)),
      (120, WatchEvent (Some ''collab.json'')), (130, WatchEvent (Some ''notify-replit''))] +
     debounceMs \<le> 850 \<and>
   timeoutsOf (TARGETS ! 0)
     (runTimers 850
       (runLoop ((10, watchOf (TARGETS ! 0)) #
          [(50, ScanTick), (60, StatAnswer 0 (StatOk 10)), (100, watchOf (TARGETS ! 0)),
           (120, WatchEvent (Some ''collab.json'')), (130, WatchEvent (Some ''notify-replit''))])
          (runLoop [(5, WatchEvent (Some ''notify-replit''))] boot))) = [] \<and>
   checksOf (TARGETS ! 0)
     (drop (length (tasks (procs
        (runLoop ((10, watchOf (TARGETS ! 0)) #
          [(50, ScanTick), (60, StatAnswer 0 (StatOk 10)), (100, watchOf (TARGETS ! 0)),
           (120, WatchEvent (Some ''collab.json'')), (130, WatchEvent (Some ''notify-replit''))])
          (runLoop [(5, WatchEvent (Some ''notify-replit''))] boot)))))
       (tasks (procs
         (runTimers 850
           (runLoop ((10, watchOf (TARGETS ! 0)) #
              [(50, ScanTick), (60, StatAnswer 0 (StatOk 10)), (100, watchOf (TARGETS ! 0)),
               (120, WatchEvent (Some ''collab.json'')), (130, WatchEvent (Some ''notify-replit''))])
              (runLoop [(5, WatchEvent (Some ''notify-replit''))] boot)))))) =
     [(TARGETS ! 0, AwaitStat)]"
proof -
  let ?evs = "[(50, ScanTick), (60, StatAnswer 0 (StatOk 10)), (100, watchOf (TARGETS ! 0)),
      (120, WatchEvent (Some ''collab.json'')), (130, WatchEvent (Some ''notify-replit''))]"
  have b: "inWindow (TARGETS ! 0) 10 ?evs"
    by (simp add: watchOf_def target0 debounceMs_def)
  have c: "lastWatch (TARGETS ! 0) 10 ?evs + debounceMs \<le> 850"
    by (simp add: watchOf_def target0 debounceMs_def)
  note t = debounce_one_check [OF target0_in b c refl refl refl,
      of "[(5, WatchEvent (Some ''notify-replit''))]"]
  from t have d: "timeoutsOf (TARGETS ! 0)
     (runTimers 850 (runLoop ((10, watchOf (TARGETS ! 0)) # ?evs)
        (runLoop [(5, WatchEvent (Some ''notify-replit''))] boot))) = []"
    by (elim conjE)
  from t have e: "checksOf (TARGETS ! 0)
     (drop (length (tasks (procs (runLoop ((10, watchOf (TARGETS ! 0)) # ?evs)
          (runLoop [(5, WatchEvent (Some ''notify-replit''))] boot)))))
       (tasks (procs (runTimers 850 (runLoop ((10, watchOf (TARGETS ! 0)) # ?evs)
              (runLoop [(5, WatchEvent (Some ''notify-replit''))] boot)))))) =
     [(TARGETS ! 0, AwaitStat)]"
    by (elim conjE)
  from target0_in b c d e show ?thesis by (intro conjI)
qed

text \<open>
  The claim as it is written counts one notification for the change notifications of a
  window. Here the file is written at 10 (\<open>one\<close>) and at 100 (\<open>two\<close>), each write with
  its change notification, and the scan ticks at 50: the check of the scan sends the first
  write, and the debounced check, started at 850, sends the second.
\<close>

theorem scan_inside_window_counterexample:
  "inWindow (TARGETS ! 0) 10
     [(50, ScanTick), (60, StatAnswer 0 (StatOk 10)), (60, StatAnswer 1 StatENOENT),
      (70, ReadAnswer 0 (ReadOk ''one'')), (100, watchOf (TARGETS ! 0))] \<and>
   notifications (map snd
     (trace (procs (runLoop
       [(10, watchOf (TARGETS ! 0)),
        (50, ScanTick), (60, StatAnswer 0 (StatOk 10)), (60, StatAnswer 1 StatENOENT),
        (70, ReadAnswer 0 (ReadOk ''one'')), (100, watchOf (TARGETS ! 0)),
        (850, Idle), (860, StatAnswer 2 (StatOk 100)), (870, ReadAnswer 2 (ReadOk ''two''))]
       boot)))) =
   [TriggerNotification ''Cascade'' ''one'', TriggerNotification ''Cascade'' ''two'']"
  by (simp add: runLoop_def runTimers_def dueAt_def fire_def timeoutCallback_def onWatchEvent_def
        debounceLocalHandle_def clearTimeout_def onScanTick_def TARGETS_def watchOf_def
        afterStat_def afterRead_def prevHandled_def filePath_def path_join_def LOCAL_FLAG_DIR_def
        boot_def start_def initial_def debounceMs_def Let_def trim_def isWhiteSpace_def
        notifications_def)

end
